theory Spec2Isabelle
  imports Main "HOL-Library.Word"
begin

unbundle bit_operations_syntax

section \<open>Feature sets (Corrade/Simd.h, exercised by SimdTest.cpp)\<close>

text \<open>
  Modelled from the spec: the \<open>Simd::Features\<close> class itself (header Corrade/Simd.h) is
  not among the sources, only its test \<open>SimdTest.cpp\<close> is. The spec describes a FeatureSet
  as a fixed-width bitmask with pure bitmask operations; the test converts it to
  \<open>std::uint32_t\<close>, so a feature set is a 32-bit word. The tag values are the ones the
  test observes: \<open>Simd::Scalar\<close> is 0, \<open>Simd::Sse3\<close> is 2, \<open>Simd::Sse3|Simd::Sse2\<close>
  is 3, adding \<open>Simd::Ssse3\<close> gives 7, and \<open>Simd::Sse41\<close> is 8.
\<close>

type_synonym Features = "32 word"

definition Simd_Scalar :: Features where "Simd_Scalar = 0"
definition Simd_Sse2 :: Features where "Simd_Sse2 = 1"
definition Simd_Sse3 :: Features where "Simd_Sse3 = 2"
definition Simd_Ssse3 :: Features where "Simd_Ssse3 = 4"
definition Simd_Sse41 :: Features where "Simd_Sse41 = 8"

text \<open>
  Modelled from the spec: \<open>contains(a, b)\<close> is a pure bitmask operation that is true iff
  every capability in \<open>b\<close> is also in \<open>a\<close>; on a bitmask that is \<open>(a & b) == b\<close>.
\<close>

definition contains :: "Features \<Rightarrow> Features \<Rightarrow> bool" where
  "contains a b = (a AND b = b)"

text \<open>
  Modelled from the spec: the comparison operators are defined purely in terms of
  \<open>contains\<close>: \<open>a <= b\<close> asks whether \<open>b\<close> contains \<open>a\<close>, and \<open>a >= b\<close> whether
  \<open>a\<close> contains \<open>b\<close>.
\<close>

definition features_le :: "Features \<Rightarrow> Features \<Rightarrow> bool" where
  "features_le a b = contains b a"

definition features_ge :: "Features \<Rightarrow> Features \<Rightarrow> bool" where
  "features_ge a b = contains a b"

text \<open>A capability is in a feature set when its bit is set in the mask.\<close>

definition has_capability :: "Features \<Rightarrow> nat \<Rightarrow> bool" where
  "has_capability a n = bit a n"

section \<open>Memory, pointers and the C library (StringView.cpp)\<close>

text \<open>
  A \<open>const char*\<close> is an address in a flat address space, the null pointer is address 0,
  and a \<open>char\<close> is a byte. Memory maps an address to the byte stored there, or to
  \<open>None\<close> where nothing is mapped. Every function that reads memory returns an option:
  \<open>None\<close> stands for a read the program must not make (an unmapped address, the null
  pointer, a misaligned aligned load, a failed debug assertion) or for a loop that never
  returns; \<open>Some p\<close> is the returned pointer, with \<open>Some null\<close> the not-found result
  \<open>return {}\<close>. Addresses are natural numbers: the kernels only form addresses between
  \<open>data - 1\<close> and a few vector widths past \<open>data + size\<close>, which do not wrap around for
  any buffer a process can own.
\<close>

type_synonym byte = "8 word"
type_synonym ptr = nat
type_synonym memory = "nat \<Rightarrow> byte option"

abbreviation null :: ptr where "null \<equiv> 0"

definition load8 :: "memory \<Rightarrow> ptr \<Rightarrow> byte option" where
  "load8 mem p = (if p = null then None else mem p)"

text \<open>The \<open>n\<close> bytes starting at \<open>p\<close>, each as the result of reading it.\<close>

definition bytes :: "memory \<Rightarrow> ptr \<Rightarrow> nat \<Rightarrow> byte option list" where
  "bytes mem p n = map (\<lambda>k. load8 mem (p + k)) [0..<n]"

text \<open>
  \<open>std::memchr(s, c, n)\<close> of the C library, after the C standard: it reads the bytes in
  order and stops at the first one equal to \<open>c\<close>; with \<open>n = 0\<close> it reads nothing and
  returns null.
\<close>

fun memchr :: "memory \<Rightarrow> ptr \<Rightarrow> byte \<Rightarrow> nat \<Rightarrow> ptr option" where
  "memchr mem s c 0 = Some null"
| "memchr mem s c (Suc n) =
     (case load8 mem s of
        None \<Rightarrow> None
      | Some b \<Rightarrow> if b = c then Some s else memchr mem (s + 1) c n)"

text \<open>
  \<open>std::memcmp(a, b, n)\<close> of the C library, after the C standard: both ranges of \<open>n\<close>
  bytes have to be readable; the result is zero when they are equal and otherwise the
  difference of the first two bytes that differ, as unsigned values. With \<open>n = 0\<close> it
  reads nothing and returns 0.
\<close>

fun memcmp :: "memory \<Rightarrow> ptr \<Rightarrow> ptr \<Rightarrow> nat \<Rightarrow> int option" where
  "memcmp mem a b 0 = Some 0"
| "memcmp mem a b (Suc n) =
     (case (load8 mem a, load8 mem b) of
        (Some x, Some y) \<Rightarrow>
          (case memcmp mem (a + 1) (b + 1) n of
             None \<Rightarrow> None
           | Some r \<Rightarrow> Some (if x = y then r else uint x - uint y))
      | _ \<Rightarrow> None)"

lemma memcmp_nonzero_reads:
  "memcmp mem a b n = Some r \<Longrightarrow> r \<noteq> 0 \<Longrightarrow> a \<noteq> null"
  by (cases n) (auto simp add: load8_def split: option.splits if_splits)

section \<open>Substring search (stringFindString, stringFindLastString)\<close>

text \<open>
  The \<open>for\<close> loop of \<open>stringFindString\<close>: \<open>data\<close> runs up to \<open>max\<close>, and falling out
  of the loop reaches the final \<open>return {}\<close>.
\<close>

function stringFindString_loop ::
  "memory \<Rightarrow> ptr \<Rightarrow> ptr \<Rightarrow> ptr \<Rightarrow> nat \<Rightarrow> ptr option" where
  "stringFindString_loop mem data maxp substring substringSize =
     (if data \<le> maxp then
        (case memcmp mem data substring substringSize of
           None \<Rightarrow> None
         | Some r \<Rightarrow>
             if r = 0 then Some data
             else stringFindString_loop mem (data + 1) maxp substring substringSize)
      else Some null)"
  by pat_completeness auto
termination
  by (relation "measure (\<lambda>(mem, data, maxp, substring, substringSize). maxp + 1 - data)") auto

definition stringFindString :: "memory \<Rightarrow> ptr \<Rightarrow> nat \<Rightarrow> ptr \<Rightarrow> nat \<Rightarrow> ptr option" where
  "stringFindString mem data sz substring substringSize =
     (if substringSize \<le> sz then
        if sz = 0 then Some data
        else stringFindString_loop mem data (data + sz - substringSize) substring substringSize
      else Some null)"

text \<open>
  The \<open>for\<close> loop of \<open>stringFindLastString\<close>: \<open>i\<close> runs down to \<open>data\<close>. The step
  \<open>--i\<close> is only taken after \<open>memcmp\<close> has read the byte at \<open>i\<close>, so \<open>i\<close> is not
  null there.
\<close>

function stringFindLastString_loop ::
  "memory \<Rightarrow> ptr \<Rightarrow> ptr \<Rightarrow> ptr \<Rightarrow> nat \<Rightarrow> ptr option" where
  "stringFindLastString_loop mem data i substring substringSize =
     (if i \<ge> data then
        (case memcmp mem i substring substringSize of
           None \<Rightarrow> None
         | Some r \<Rightarrow>
             if r = 0 then Some i
             else stringFindLastString_loop mem data (i - 1) substring substringSize)
      else Some null)"
  by pat_completeness auto
termination
  by (relation "measure (\<lambda>(mem, data, i, substring, substringSize). i + 1 - data)")
     (auto dest: memcmp_nonzero_reads)

definition stringFindLastString :: "memory \<Rightarrow> ptr \<Rightarrow> nat \<Rightarrow> ptr \<Rightarrow> nat \<Rightarrow> ptr option" where
  "stringFindLastString mem data sz substring substringSize =
     (if substringSize \<le> sz then
        if sz = 0 then Some data
        else stringFindLastString_loop mem data (data + sz - substringSize) substring substringSize
      else Some null)"

section \<open>Byte and any-of-set search, scalar (StringView.cpp)\<close>

text \<open>
  \<open>stringFindLastCharacter\<close>: the loop only runs for a non-null \<open>data\<close>, from
  \<open>data + size - 1\<close> down to \<open>data\<close>; \<open>--i\<close> is only taken after \<open>*i\<close> has been read.
\<close>

function stringFindLastCharacter_loop :: "memory \<Rightarrow> ptr \<Rightarrow> ptr \<Rightarrow> byte \<Rightarrow> ptr option" where
  "stringFindLastCharacter_loop mem data i character =
     (if i \<ge> data then
        (case load8 mem i of
           None \<Rightarrow> None
         | Some b \<Rightarrow>
             if b = character then Some i
             else stringFindLastCharacter_loop mem data (i - 1) character)
      else Some null)"
  by pat_completeness auto
termination
  by (relation "measure (\<lambda>(mem, data, i, character). i + 1 - data)")
     (auto simp add: load8_def split: if_splits)

definition stringFindLastCharacter :: "memory \<Rightarrow> ptr \<Rightarrow> nat \<Rightarrow> byte \<Rightarrow> ptr option" where
  "stringFindLastCharacter mem data sz character =
     (if data \<noteq> null then stringFindLastCharacter_loop mem data (data + sz - 1) character
      else Some null)"

text \<open>
  The four any-of-set searches loop while \<open>i != end\<close> (forward) or \<open>i != data\<close>
  (backward); such a loop has no bound of its own, so it is a partial function whose
  value is \<open>None\<close> where it does not return.
\<close>

partial_function (option) stringFindAny_loop ::
  "memory \<Rightarrow> ptr \<Rightarrow> ptr \<Rightarrow> ptr \<Rightarrow> nat \<Rightarrow> ptr option" where
  "stringFindAny_loop mem i endp characters characterCount =
     (if i \<noteq> endp then
        (case load8 mem i of
           None \<Rightarrow> None
         | Some b \<Rightarrow>
            (case memchr mem characters b characterCount of
               None \<Rightarrow> None
             | Some found \<Rightarrow>
                 if found \<noteq> null then Some i
                 else stringFindAny_loop mem (i + 1) endp characters characterCount))
      else Some null)"

definition stringFindAny :: "memory \<Rightarrow> ptr \<Rightarrow> nat \<Rightarrow> ptr \<Rightarrow> nat \<Rightarrow> ptr option" where
  "stringFindAny mem data sz characters characterCount =
     stringFindAny_loop mem data (data + sz) characters characterCount"

partial_function (option) stringFindLastAny_loop ::
  "memory \<Rightarrow> ptr \<Rightarrow> ptr \<Rightarrow> ptr \<Rightarrow> nat \<Rightarrow> ptr option" where
  "stringFindLastAny_loop mem data i characters characterCount =
     (if i \<noteq> data then
        (case load8 mem (i - 1) of
           None \<Rightarrow> None
         | Some b \<Rightarrow>
            (case memchr mem characters b characterCount of
               None \<Rightarrow> None
             | Some found \<Rightarrow>
                 if found \<noteq> null then Some (i - 1)
                 else stringFindLastAny_loop mem data (i - 1) characters characterCount))
      else Some null)"

definition stringFindLastAny :: "memory \<Rightarrow> ptr \<Rightarrow> nat \<Rightarrow> ptr \<Rightarrow> nat \<Rightarrow> ptr option" where
  "stringFindLastAny mem data sz characters characterCount =
     stringFindLastAny_loop mem data (data + sz) characters characterCount"

partial_function (option) stringFindNotAny_loop ::
  "memory \<Rightarrow> ptr \<Rightarrow> ptr \<Rightarrow> ptr \<Rightarrow> nat \<Rightarrow> ptr option" where
  "stringFindNotAny_loop mem i endp characters characterCount =
     (if i \<noteq> endp then
        (case load8 mem i of
           None \<Rightarrow> None
         | Some b \<Rightarrow>
            (case memchr mem characters b characterCount of
               None \<Rightarrow> None
             | Some found \<Rightarrow>
                 if \<not> found \<noteq> null then Some i
                 else stringFindNotAny_loop mem (i + 1) endp characters characterCount))
      else Some null)"

definition stringFindNotAny :: "memory \<Rightarrow> ptr \<Rightarrow> nat \<Rightarrow> ptr \<Rightarrow> nat \<Rightarrow> ptr option" where
  "stringFindNotAny mem data sz characters characterCount =
     stringFindNotAny_loop mem data (data + sz) characters characterCount"

partial_function (option) stringFindLastNotAny_loop ::
  "memory \<Rightarrow> ptr \<Rightarrow> ptr \<Rightarrow> ptr \<Rightarrow> nat \<Rightarrow> ptr option" where
  "stringFindLastNotAny_loop mem data i characters characterCount =
     (if i \<noteq> data then
        (case load8 mem (i - 1) of
           None \<Rightarrow> None
         | Some b \<Rightarrow>
            (case memchr mem characters b characterCount of
               None \<Rightarrow> None
             | Some found \<Rightarrow>
                 if \<not> found \<noteq> null then Some (i - 1)
                 else stringFindLastNotAny_loop mem data (i - 1) characters characterCount))
      else Some null)"

definition stringFindLastNotAny :: "memory \<Rightarrow> ptr \<Rightarrow> nat \<Rightarrow> ptr \<Rightarrow> nat \<Rightarrow> ptr option" where
  "stringFindLastNotAny mem data sz characters characterCount =
     stringFindLastNotAny_loop mem data (data + sz) characters characterCount"

declare stringFindString_loop.simps [simp del]
declare stringFindLastString_loop.simps [simp del]
declare stringFindLastCharacter_loop.simps [simp del]

declare stringFindAny_loop.simps [code]
declare stringFindLastAny_loop.simps [code]
declare stringFindNotAny_loop.simps [code]
declare stringFindLastNotAny_loop.simps [code]

section \<open>Vector intrinsics (SSE2, AVX2, BMI1)\<close>

text \<open>
  The helpers \<open>findCharacterSingleVector\<close> and \<open>findCharacterSingleVectorUnaligned\<close>
  are overloaded on a tag, \<open>Cpu::Sse2T\<close> or \<open>Cpu::Avx2T\<close>; the tag fixes the vector
  type (\<open>__m128i\<close> or \<open>__m256i\<close>) and with it the number of byte lanes. The two
  variants of every intrinsic differ in nothing but that width, so each is modelled once
  with the tag as an argument. A vector is the list of its byte lanes, lane 0 (the lowest
  address) first.
\<close>

datatype vector_tag = Sse2T | Avx2T

fun vector_width :: "vector_tag \<Rightarrow> nat" where
  "vector_width Sse2T = 16"
| "vector_width Avx2T = 32"

type_synonym vec = "byte list"

text \<open>
  \<open>_mm_loadu_si128\<close> / \<open>_mm256_loadu_si256\<close> read one vector from any address;
  \<open>_mm_load_si128\<close> / \<open>_mm256_load_si256\<close> fault unless the address is a multiple of
  the vector width. Either reads every byte of the vector.
\<close>

definition loadu_si :: "vector_tag \<Rightarrow> memory \<Rightarrow> ptr \<Rightarrow> vec option" where
  "loadu_si t mem at = those (bytes mem at (vector_width t))"

definition load_si :: "vector_tag \<Rightarrow> memory \<Rightarrow> ptr \<Rightarrow> vec option" where
  "load_si t mem at = (if at mod vector_width t = 0 then loadu_si t mem at else None)"

text \<open>\<open>_mm_set1_epi8\<close>: the byte broadcast to every lane.\<close>

definition set1_epi8 :: "vector_tag \<Rightarrow> byte \<Rightarrow> vec" where
  "set1_epi8 t c = replicate (vector_width t) c"

text \<open>\<open>_mm_cmpeq_epi8\<close>: a lane is \<open>0xFF\<close> where the two bytes are equal, else 0.\<close>

definition cmpeq_epi8 :: "vec \<Rightarrow> vec \<Rightarrow> vec" where
  "cmpeq_epi8 a b = map2 (\<lambda>x y. if x = y then 0xFF else 0) a b"

text \<open>\<open>_mm_or_si128\<close>: bitwise or, lane by lane.\<close>

definition or_si :: "vec \<Rightarrow> vec \<Rightarrow> vec" where
  "or_si a b = map2 (\<lambda>x y. x OR y) a b"

text \<open>
  \<open>_mm_movemask_epi8\<close>: bit \<open>k\<close> of the resulting \<open>int\<close> is the most significant bit
  of lane \<open>k\<close>.
\<close>

definition movemask_epi8 :: "vec \<Rightarrow> 32 word" where
  "movemask_epi8 v = horner_sum of_bool 2 (map (\<lambda>x. bit x 7) v)"

text \<open>\<open>_tzcnt_u32\<close>: the number of trailing zero bits, 32 for the operand 0.\<close>

definition tzcnt_u32 :: "32 word \<Rightarrow> nat" where
  "tzcnt_u32 x = length (takeWhile (\<lambda>k. \<not> bit x k) [0..<32])"

text \<open>
  \<open>reinterpret_cast<std::uintptr_t>(p) & ~0xf\<close> clears the low four bits of the
  address (five bits for \<open>~0x1f\<close>).
\<close>

definition clear_low_bits :: "nat \<Rightarrow> ptr \<Rightarrow> ptr" where
  "clear_low_bits k p = push_bit k (drop_bit k p)"

lemma vector_width_pos: "0 < vector_width t"
  by (cases t) simp_all

section \<open>Vectorised character search (stringFindCharacterImplementation)\<close>

definition findCharacterSingleVectorUnaligned ::
  "vector_tag \<Rightarrow> memory \<Rightarrow> ptr \<Rightarrow> vec \<Rightarrow> ptr option" where
  "findCharacterSingleVectorUnaligned t mem at vn1 =
     (case loadu_si t mem at of
        None \<Rightarrow> None
      | Some chunk \<Rightarrow>
          let mask = movemask_epi8 (cmpeq_epi8 chunk vn1)
          in if mask \<noteq> 0 then Some (at + tzcnt_u32 mask) else Some null)"

text \<open>The aligned variant starts with a debug assertion on the alignment.\<close>

definition findCharacterSingleVector ::
  "vector_tag \<Rightarrow> memory \<Rightarrow> ptr \<Rightarrow> vec \<Rightarrow> ptr option" where
  "findCharacterSingleVector t mem at vn1 =
     (if \<not> at mod vector_width t = 0 then None
      else
        case load_si t mem at of
          None \<Rightarrow> None
        | Some chunk \<Rightarrow>
            let mask = movemask_epi8 (cmpeq_epi8 chunk vn1)
            in if mask \<noteq> 0 then Some (at + tzcnt_u32 mask) else Some null)"

text \<open>
  The scalar loop for fewer than 16 bytes:
  \<open>for(const char* i = data; i != end; ++i) if(*i == character) return i;\<close>
\<close>

partial_function (option) findCharacter_scalar_loop ::
  "memory \<Rightarrow> ptr \<Rightarrow> ptr \<Rightarrow> byte \<Rightarrow> ptr option" where
  "findCharacter_scalar_loop mem i endp character =
     (if i \<noteq> endp then
        (case load8 mem i of
           None \<Rightarrow> None
         | Some b \<Rightarrow>
             if b = character then Some i
             else findCharacter_scalar_loop mem (i + 1) endp character)
      else Some null)"

declare findCharacter_scalar_loop.simps [code]

text \<open>
  The body of both vector implementations is the same text up to the vector width. Its
  three stages after the first unaligned vector are written here in the order the later
  ones are reached from the earlier ones: each loop, when its condition fails, continues
  with the code that follows it in the source.

  Last stage: less than a vector remains; if anything remains, one unaligned vector
  ending at \<open>end\<close> is searched (after the debug assertion \<open>i + 16 > end\<close>).
\<close>

definition findCharacter_remainder ::
  "vector_tag \<Rightarrow> memory \<Rightarrow> ptr \<Rightarrow> ptr \<Rightarrow> vec \<Rightarrow> ptr option" where
  "findCharacter_remainder t mem i endp vn1 =
     (if i < endp then
        if \<not> i + vector_width t > endp then None
        else findCharacterSingleVectorUnaligned t mem (endp - vector_width t) vn1
      else Some null)"

text \<open>Middle stage: \<open>for(; i + 16 <= end; i += 16)\<close>, one aligned vector at a time.\<close>

function findCharacter_singleVector_loop ::
  "vector_tag \<Rightarrow> memory \<Rightarrow> ptr \<Rightarrow> ptr \<Rightarrow> vec \<Rightarrow> ptr option" where
  "findCharacter_singleVector_loop t mem i endp vn1 =
     (if i + vector_width t \<le> endp then
        (case findCharacterSingleVector t mem i vn1 of
           None \<Rightarrow> None
         | Some found \<Rightarrow>
             if found \<noteq> null then Some found
             else findCharacter_singleVector_loop t mem (i + vector_width t) endp vn1)
      else findCharacter_remainder t mem i endp vn1)"
  by pat_completeness auto
termination
  by (relation "measure (\<lambda>(t, mem, i, endp, vn1). endp - i)")
     (use vector_width_pos in \<open>auto simp add: less_diff_conv2 intro: diff_less_mono2\<close>)

text \<open>
  First stage: \<open>for(; i + 4*16 < end; i += 4*16)\<close>, four aligned vectors at a time. The
  four loads come first; the four comparison results are or-ed together and only looked
  at one by one when the combined mask is non-zero. The branch after the fourth test is
  \<open>CORRADE_INTERNAL_DEBUG_ASSERT_UNREACHABLE()\<close>.
\<close>

function findCharacter_fourVectors_loop ::
  "vector_tag \<Rightarrow> memory \<Rightarrow> ptr \<Rightarrow> ptr \<Rightarrow> vec \<Rightarrow> ptr option" where
  "findCharacter_fourVectors_loop t mem i endp vn1 =
     (if i + 4 * vector_width t < endp then
        (case load_si t mem (i + 0 * vector_width t) of None \<Rightarrow> None | Some a \<Rightarrow>
         case load_si t mem (i + 1 * vector_width t) of None \<Rightarrow> None | Some b \<Rightarrow>
         case load_si t mem (i + 2 * vector_width t) of None \<Rightarrow> None | Some c \<Rightarrow>
         case load_si t mem (i + 3 * vector_width t) of None \<Rightarrow> None | Some d \<Rightarrow>
           let eqa = cmpeq_epi8 vn1 a;
               eqb = cmpeq_epi8 vn1 b;
               eqc = cmpeq_epi8 vn1 c;
               eqd = cmpeq_epi8 vn1 d;
               or1 = or_si eqa eqb;
               or2 = or_si eqc eqd;
               or3 = or_si or1 or2
           in
             if movemask_epi8 or3 \<noteq> 0 then
               if movemask_epi8 eqa \<noteq> 0
                 then Some (i + 0 * vector_width t + tzcnt_u32 (movemask_epi8 eqa))
               else if movemask_epi8 eqb \<noteq> 0
                 then Some (i + 1 * vector_width t + tzcnt_u32 (movemask_epi8 eqb))
               else if movemask_epi8 eqc \<noteq> 0
                 then Some (i + 2 * vector_width t + tzcnt_u32 (movemask_epi8 eqc))
               else if movemask_epi8 eqd \<noteq> 0
                 then Some (i + 3 * vector_width t + tzcnt_u32 (movemask_epi8 eqd))
               else None
             else findCharacter_fourVectors_loop t mem (i + 4 * vector_width t) endp vn1)
      else findCharacter_singleVector_loop t mem i endp vn1)"
  by pat_completeness auto
termination
  by (relation "measure (\<lambda>(t, mem, i, endp, vn1). endp - i)")
     (use vector_width_pos in \<open>auto simp add: less_diff_conv2 intro: diff_less_mono2\<close>)

declare findCharacter_singleVector_loop.simps [simp del]
declare findCharacter_fourVectors_loop.simps [simp del]

text \<open>The 128-bit implementation, \<open>stringFindCharacterImplementation(Cpu::Sse2|Cpu::Bmi1)\<close>.\<close>

definition stringFindCharacterImplementation_Sse2_Bmi1 ::
  "memory \<Rightarrow> ptr \<Rightarrow> nat \<Rightarrow> byte \<Rightarrow> ptr option" where
  "stringFindCharacterImplementation_Sse2_Bmi1 mem data sz character =
     (let endp = data + sz in
      if sz < 16 then findCharacter_scalar_loop mem data endp character
      else
        let vn1 = set1_epi8 Sse2T character in
        case findCharacterSingleVectorUnaligned Sse2T mem data vn1 of
          None \<Rightarrow> None
        | Some found \<Rightarrow>
            if found \<noteq> null then Some found
            else
              let i = clear_low_bits 4 (data + 16) in
              if \<not> (i \<ge> data \<and> i mod 16 = 0) then None
              else findCharacter_fourVectors_loop Sse2T mem i endp vn1)"

text \<open>
  The 256-bit implementation, \<open>stringFindCharacterImplementation(Cpu::Avx2|Cpu::Bmi1)\<close>:
  below 32 bytes it calls the 128-bit one.
\<close>

definition stringFindCharacterImplementation_Avx2_Bmi1 ::
  "memory \<Rightarrow> ptr \<Rightarrow> nat \<Rightarrow> byte \<Rightarrow> ptr option" where
  "stringFindCharacterImplementation_Avx2_Bmi1 mem data sz character =
     (let endp = data + sz in
      if sz < 32 then stringFindCharacterImplementation_Sse2_Bmi1 mem data sz character
      else
        let vn1 = set1_epi8 Avx2T character in
        case findCharacterSingleVectorUnaligned Avx2T mem data vn1 of
          None \<Rightarrow> None
        | Some found \<Rightarrow>
            if found \<noteq> null then Some found
            else
              let i = clear_low_bits 5 (data + 32) in
              if \<not> (i \<ge> data \<and> i mod 32 = 0) then None
              else findCharacter_fourVectors_loop Avx2T mem i endp vn1)"

text \<open>The scalar implementation, \<open>stringFindCharacterImplementation(Cpu::Scalar)\<close>.\<close>

definition stringFindCharacterImplementation_Scalar ::
  "memory \<Rightarrow> ptr \<Rightarrow> nat \<Rightarrow> byte \<Rightarrow> ptr option" where
  "stringFindCharacterImplementation_Scalar mem data sz character =
     memchr mem data character sz"

text \<open>
  \<open>stringFindCharacter\<close> is whichever of the three implementations the dispatcher picks
  for the running CPU (the dispatch macros are not among the sources); the choice is an
  argument here, so that a statement about \<open>stringFindCharacter\<close> covers every tier.
\<close>

datatype cpu_tier = Cpu_Scalar | Cpu_Sse2_Bmi1 | Cpu_Avx2_Bmi1

fun stringFindCharacter :: "cpu_tier \<Rightarrow> memory \<Rightarrow> ptr \<Rightarrow> nat \<Rightarrow> byte \<Rightarrow> ptr option" where
  "stringFindCharacter Cpu_Scalar = stringFindCharacterImplementation_Scalar"
| "stringFindCharacter Cpu_Sse2_Bmi1 = stringFindCharacterImplementation_Sse2_Bmi1"
| "stringFindCharacter Cpu_Avx2_Bmi1 = stringFindCharacterImplementation_Avx2_Bmi1"

section \<open>Buffers\<close>

text \<open>
  A buffer \<open>(p, n)\<close> is readable when each of its \<open>n\<close> bytes can be read; a readable
  buffer of positive length does not start at the null pointer.
\<close>

definition readable :: "memory \<Rightarrow> ptr \<Rightarrow> nat \<Rightarrow> bool" where
  "readable mem p n = (\<forall>a. p \<le> a \<and> a < p + n \<longrightarrow> load8 mem a \<noteq> None)"

text \<open>The byte at address \<open>a\<close> is \<open>c\<close>, respectively is one of the set stored at \<open>(q, m)\<close>.\<close>

definition is_char :: "memory \<Rightarrow> byte \<Rightarrow> ptr \<Rightarrow> bool" where
  "is_char mem c a = (load8 mem a = Some c)"

definition in_set :: "memory \<Rightarrow> ptr \<Rightarrow> nat \<Rightarrow> ptr \<Rightarrow> bool" where
  "in_set mem q m a = (load8 mem a \<in> set (bytes mem q m))"

text \<open>The \<open>m\<close> bytes at address \<open>a\<close> are equal to the needle stored at \<open>(q, m)\<close>.\<close>

definition matches_at :: "memory \<Rightarrow> ptr \<Rightarrow> nat \<Rightarrow> ptr \<Rightarrow> bool" where
  "matches_at mem q m a = (bytes mem a m = bytes mem q m)"

text \<open>Memory holds the bytes \<open>bs\<close> at address \<open>p\<close>.\<close>

definition holds :: "memory \<Rightarrow> ptr \<Rightarrow> byte list \<Rightarrow> bool" where
  "holds mem p bs = (bytes mem p (length bs) = map Some bs)"

text \<open>No address in \<open>[lo, hi)\<close> satisfies \<open>P\<close>.\<close>

definition absent :: "(ptr \<Rightarrow> bool) \<Rightarrow> ptr \<Rightarrow> ptr \<Rightarrow> bool" where
  "absent P lo hi = (\<forall>a. lo \<le> a \<and> a < hi \<longrightarrow> \<not> P a)"

text \<open>The memory in which the buffer \<open>(p, n)\<close> is mapped as in \<open>mem\<close> and nothing else is.\<close>

definition only_buffer :: "memory \<Rightarrow> ptr \<Rightarrow> nat \<Rightarrow> memory" where
  "only_buffer mem p n = (\<lambda>a. if p \<le> a \<and> a < p + n then mem a else None)"

text \<open>
  \<open>leftmost P lo hi r\<close>: the pointer \<open>r\<close> is the lowest address in \<open>[lo, hi)\<close> that
  satisfies \<open>P\<close>, or null when no address in the range does; \<open>rightmost\<close> is the same
  for the highest address.
\<close>

definition leftmost :: "(ptr \<Rightarrow> bool) \<Rightarrow> ptr \<Rightarrow> ptr \<Rightarrow> ptr \<Rightarrow> bool" where
  "leftmost P lo hi r =
     (if \<exists>a. lo \<le> a \<and> a < hi \<and> P a
      then lo \<le> r \<and> r < hi \<and> P r \<and> (\<forall>a. lo \<le> a \<and> a < r \<longrightarrow> \<not> P a)
      else r = null)"

definition rightmost :: "(ptr \<Rightarrow> bool) \<Rightarrow> ptr \<Rightarrow> ptr \<Rightarrow> ptr \<Rightarrow> bool" where
  "rightmost P lo hi r =
     (if \<exists>a. lo \<le> a \<and> a < hi \<and> P a
      then lo \<le> r \<and> r < hi \<and> P r \<and> (\<forall>a. r < a \<and> a < hi \<longrightarrow> \<not> P a)
      else r = null)"

text \<open>A concrete memory: the bytes \<open>bs\<close> stored from address \<open>base\<close> on, nothing else.\<close>

definition place :: "ptr \<Rightarrow> byte list \<Rightarrow> memory" where
  "place base bs =
     (\<lambda>a. if base \<le> a \<and> a < base + length bs then Some (bs ! (a - base)) else None)"

definition bytes_of :: "string \<Rightarrow> byte list" where
  "bytes_of s = map of_char s"

section \<open>Example buffers\<close>

text \<open>
  Concrete memories for the scenarios of the tests: \<open>abcabc\<close> with the needle \<open>bc\<close>,
  \<open>banana\<close> with the character set \<open>nz\<close>, the 17 bytes that straddle one 16-byte
  vector, and a 40-byte buffer that is longer than one 32-byte vector. The buffers start
  at address 19, which is not a multiple of 16.
\<close>

definition abcabc :: memory where
  "abcabc = place 19 (bytes_of ''abcabc'') ++ place 40 (bytes_of ''bc'')"

definition banana :: memory where
  "banana = place 19 (bytes_of ''banana'') ++ place 40 (bytes_of ''nz'')"

definition straddle :: memory where
  "straddle = place 19 (bytes_of ''aaaaaaaaaaaaaaaaX'')"

definition long_buffer :: memory where
  "long_buffer = place 19 (replicate 37 1 @ [7, 8, 7])"

section \<open>Properties of feature sets\<close>

lemma contains_iff_bits: "contains a b \<longleftrightarrow> (\<forall>n. bit b n \<longrightarrow> bit a n)"
proof
  assume "contains a b"
  then have eq: "a AND b = b" by (simp add: contains_def)
  show "\<forall>n. bit b n \<longrightarrow> bit a n"
  proof (intro allI impI)
    fix n assume "bit b n"
    then have "bit (a AND b) n" by (simp add: eq)
    then show "bit a n" by (simp add: bit_and_iff)
  qed
next
  assume h: "\<forall>n. bit b n \<longrightarrow> bit a n"
  have "a AND b = b"
    by (rule bit_eqI) (use h in \<open>auto simp add: bit_and_iff\<close>)
  then show "contains a b" by (simp add: contains_def)
qed

lemma Sse2_Sse3_incomparable:
  "Simd_Sse2 \<noteq> Simd_Scalar" "Simd_Sse3 \<noteq> Simd_Scalar" "Simd_Sse2 AND Simd_Sse3 = Simd_Scalar"
  "\<not> features_le Simd_Sse2 Simd_Sse3" "\<not> features_ge Simd_Sse2 Simd_Sse3"
  by (simp_all add: features_le_def features_ge_def contains_def
      Simd_Scalar_def Simd_Sse2_def Simd_Sse3_def)

text \<open>The assertions of \<open>SimdTest::featuresCompare\<close> hold in the model.\<close>

lemma featuresCompare_test:
  "features_le Simd_Scalar Simd_Sse41" "features_ge Simd_Sse41 Simd_Scalar"
  "features_le Simd_Sse41 Simd_Sse41" "features_ge Simd_Sse41 Simd_Sse41"
  "features_le Simd_Sse41 (Simd_Sse41 OR Simd_Sse2 OR Simd_Sse3)"
  "features_ge (Simd_Sse41 OR Simd_Sse2 OR Simd_Sse3) Simd_Sse41"
  "features_le (Simd_Sse41 OR Simd_Sse2 OR Simd_Sse3)
     (Simd_Sse41 OR Simd_Sse2 OR Simd_Sse3 OR Simd_Ssse3)"
  "\<not> features_ge (Simd_Sse41 OR Simd_Sse2 OR Simd_Sse3)
     (Simd_Sse41 OR Simd_Sse2 OR Simd_Sse3 OR Simd_Ssse3)"
  by (simp_all add: features_le_def features_ge_def contains_def
      Simd_Scalar_def Simd_Sse2_def Simd_Sse3_def Simd_Ssse3_def Simd_Sse41_def)

text \<open>
  Claim C6. For all feature sets \<open>a\<close> and \<open>b\<close>, \<open>a <= b\<close> holds exactly when every
  capability of \<open>a\<close> is also in \<open>b\<close>, and \<open>a >= b\<close> exactly when every capability of
  \<open>b\<close> is also in \<open>a\<close>; both are phrased through \<open>contains\<close>. The relation is not total:
  \<open>Simd::Sse2\<close> and \<open>Simd::Sse3\<close> are non-empty and disjoint, and neither
  \<open>Sse2 <= Sse3\<close> nor \<open>Sse2 >= Sse3\<close> holds.
\<close>

theorem features_compare_subset:
  "(features_le a b \<longleftrightarrow> (\<forall>n. has_capability a n \<longrightarrow> has_capability b n))
   \<and> (features_ge a b \<longleftrightarrow> (\<forall>n. has_capability b n \<longrightarrow> has_capability a n))
   \<and> (features_le a b \<longleftrightarrow> contains b a) \<and> (features_ge a b \<longleftrightarrow> contains a b)
   \<and> (Simd_Sse2 \<noteq> Simd_Scalar \<and> Simd_Sse3 \<noteq> Simd_Scalar
        \<and> Simd_Sse2 AND Simd_Sse3 = Simd_Scalar
        \<and> \<not> features_le Simd_Sse2 Simd_Sse3 \<and> \<not> features_ge Simd_Sse2 Simd_Sse3)"
  using Sse2_Sse3_incomparable
  by (simp add: features_le_def features_ge_def has_capability_def contains_iff_bits)

theorem features_compare_subset_witness:
  "features_le (3 :: Features) 7 \<and> \<not> features_ge (3 :: Features) 7
   \<and> has_capability (3 :: Features) 1 \<and> has_capability (7 :: Features) 1"
  using features_compare_subset [of 3 7]
  by (simp add: features_le_def features_ge_def contains_def has_capability_def)

section \<open>Reading buffers\<close>

lemma load8_null [simp]: "load8 mem null = None"
  by (simp add: load8_def)

lemma readableD: "readable mem p n \<Longrightarrow> p \<le> a \<Longrightarrow> a < p + n \<Longrightarrow> \<exists>b. load8 mem a = Some b"
  by (auto simp add: readable_def)

lemma load8_Some_nonnull: "load8 mem a = Some b \<Longrightarrow> a \<noteq> null"
  by (auto simp add: load8_def split: if_splits)

lemma readable_nonnull: "readable mem p n \<Longrightarrow> 0 < n \<Longrightarrow> p \<noteq> null"
  using readableD [of mem p n p] by (auto dest: load8_Some_nonnull)

lemma readable_sub: "readable mem p n \<Longrightarrow> p \<le> q \<Longrightarrow> q + m \<le> p + n \<Longrightarrow> readable mem q m"
  by (auto simp add: readable_def)

lemma readable_0 [simp]: "readable mem p 0"
  by (auto simp add: readable_def)

lemma bytes_Suc: "bytes mem p (Suc n) = load8 mem p # bytes mem (p + 1) n"
proof -
  have "[0..<Suc n] = 0 # map Suc [0..<n]"
    by (simp only: map_Suc_upt upt_conv_Cons [of 0 "Suc n"] zero_less_Suc)
  then show ?thesis by (simp add: bytes_def comp_def del: upt_Suc)
qed

lemma bytes_0 [simp]: "bytes mem p 0 = []"
  by (simp add: bytes_def)

lemma length_bytes [simp]: "length (bytes mem p n) = n"
  by (simp add: bytes_def)

lemma nth_bytes [simp]: "k < n \<Longrightarrow> bytes mem p n ! k = load8 mem (p + k)"
  by (simp add: bytes_def)

lemma set_bytes: "set (bytes mem p n) = {load8 mem a | a. p \<le> a \<and> a < p + n}"
proof (intro set_eqI iffI)
  fix x assume "x \<in> set (bytes mem p n)"
  then obtain k where "k < n" "x = load8 mem (p + k)" by (auto simp add: bytes_def)
  then have "x = load8 mem (p + k) \<and> p \<le> p + k \<and> p + k < p + n" by simp
  then show "x \<in> {load8 mem a | a. p \<le> a \<and> a < p + n}" by blast
next
  fix x assume "x \<in> {load8 mem a | a. p \<le> a \<and> a < p + n}"
  then obtain a where a: "x = load8 mem a" "p \<le> a" "a < p + n" by blast
  then have "a - p < n" "a = p + (a - p)" by auto
  then have "x = bytes mem p n ! (a - p)" using a(1) by simp
  then show "x \<in> set (bytes mem p n)" using \<open>a - p < n\<close> by (metis length_bytes nth_mem)
qed

subsection \<open>The leftmost and the rightmost match\<close>

lemma leftmost_none: "(\<And>a. lo \<le> a \<Longrightarrow> a < hi \<Longrightarrow> \<not> P a) \<Longrightarrow> leftmost P lo hi null"
  by (auto simp add: leftmost_def)

lemma leftmost_found:
  "lo \<le> r \<Longrightarrow> r < hi \<Longrightarrow> P r \<Longrightarrow> (\<And>a. lo \<le> a \<Longrightarrow> a < r \<Longrightarrow> \<not> P a) \<Longrightarrow> leftmost P lo hi r"
  by (auto simp add: leftmost_def)

lemma leftmost_step:
  assumes "\<not> P lo" "leftmost P (Suc lo) hi r"
  shows "leftmost P lo hi r"
proof (cases "\<exists>a. Suc lo \<le> a \<and> a < hi \<and> P a")
  case True
  with assms(2) have r: "Suc lo \<le> r" "r < hi" "P r" "\<forall>a. Suc lo \<le> a \<and> a < r \<longrightarrow> \<not> P a"
    by (simp_all add: leftmost_def)
  show ?thesis
  proof (rule leftmost_found)
    fix a assume "lo \<le> a" "a < r"
    then show "\<not> P a" using assms(1) r(4) by (cases "a = lo") auto
  qed (use r in auto)
next
  case False
  with assms(2) have "r = null" by (simp add: leftmost_def)
  moreover have "\<And>a. lo \<le> a \<Longrightarrow> a < hi \<Longrightarrow> \<not> P a"
  proof -
    fix a assume "lo \<le> a" "a < hi"
    then show "\<not> P a" using False assms(1) by (cases "a = lo") auto
  qed
  ultimately show ?thesis by (simp add: leftmost_none)
qed

lemma leftmost_foundD:
  assumes "leftmost P lo hi r" "\<exists>a. lo \<le> a \<and> a < hi \<and> P a"
  shows "lo \<le> r" "r < hi" "P r" "\<And>a. lo \<le> a \<Longrightarrow> a < r \<Longrightarrow> \<not> P a"
proof -
  from assms(1) have "if \<exists>a. lo \<le> a \<and> a < hi \<and> P a
      then lo \<le> r \<and> r < hi \<and> P r \<and> (\<forall>a. lo \<le> a \<and> a < r \<longrightarrow> \<not> P a)
      else r = null" unfolding leftmost_def .
  with assms(2) have c: "lo \<le> r \<and> r < hi \<and> P r \<and> (\<forall>a. lo \<le> a \<and> a < r \<longrightarrow> \<not> P a)"
    by (simp only: if_True simp_thms) blast
  from c show "lo \<le> r" "r < hi" "P r" by blast+
  from c show "\<And>a. lo \<le> a \<Longrightarrow> a < r \<Longrightarrow> \<not> P a" by blast
qed

lemma leftmost_noneD:
  assumes "leftmost P lo hi r" "\<not> (\<exists>a. lo \<le> a \<and> a < hi \<and> P a)"
  shows "r = null"
proof -
  from assms(1) have "if \<exists>a. lo \<le> a \<and> a < hi \<and> P a
      then lo \<le> r \<and> r < hi \<and> P r \<and> (\<forall>a. lo \<le> a \<and> a < r \<longrightarrow> \<not> P a)
      else r = null" unfolding leftmost_def .
  with assms(2) show ?thesis by (simp only: if_False)
qed

lemma leftmost_unique:
  assumes "leftmost P lo hi r" "leftmost P lo hi r'"
  shows "r = r'"
proof (cases "\<exists>a. lo \<le> a \<and> a < hi \<and> P a")
  case True
  note r = leftmost_foundD [OF assms(1) True] and r' = leftmost_foundD [OF assms(2) True]
  have "\<not> r < r'" using r(1,3) r'(4) by blast
  moreover have "\<not> r' < r" using r'(1,3) r(4) by blast
  ultimately show ?thesis by simp
next
  case False
  then show ?thesis using leftmost_noneD [OF assms(1)] leftmost_noneD [OF assms(2)] by simp
qed

lemma rightmost_none: "(\<And>a. lo \<le> a \<Longrightarrow> a < hi \<Longrightarrow> \<not> P a) \<Longrightarrow> rightmost P lo hi null"
  by (auto simp add: rightmost_def)

lemma rightmost_found:
  "lo \<le> r \<Longrightarrow> r < hi \<Longrightarrow> P r \<Longrightarrow> (\<And>a. r < a \<Longrightarrow> a < hi \<Longrightarrow> \<not> P a) \<Longrightarrow> rightmost P lo hi r"
  by (auto simp add: rightmost_def)

lemma rightmost_step:
  assumes "\<not> P hi" "rightmost P lo hi r"
  shows "rightmost P lo (Suc hi) r"
proof (cases "\<exists>a. lo \<le> a \<and> a < hi \<and> P a")
  case True
  with assms(2) have r: "lo \<le> r" "r < hi" "P r" "\<forall>a. r < a \<and> a < hi \<longrightarrow> \<not> P a"
    by (simp_all add: rightmost_def)
  show ?thesis
  proof (rule rightmost_found)
    fix a assume "r < a" "a < Suc hi"
    then show "\<not> P a" using assms(1) r(4) by (cases "a = hi") auto
  qed (use r in auto)
next
  case False
  with assms(2) have "r = null" by (simp add: rightmost_def)
  moreover have "\<And>a. lo \<le> a \<Longrightarrow> a < Suc hi \<Longrightarrow> \<not> P a"
  proof -
    fix a assume "lo \<le> a" "a < Suc hi"
    then show "\<not> P a" using False assms(1) by (cases "a = hi") auto
  qed
  ultimately show ?thesis by (simp add: rightmost_none)
qed

lemma rightmost_foundD:
  assumes "rightmost P lo hi r" "\<exists>a. lo \<le> a \<and> a < hi \<and> P a"
  shows "lo \<le> r" "r < hi" "P r" "\<And>a. r < a \<Longrightarrow> a < hi \<Longrightarrow> \<not> P a"
proof -
  from assms(1) have "if \<exists>a. lo \<le> a \<and> a < hi \<and> P a
      then lo \<le> r \<and> r < hi \<and> P r \<and> (\<forall>a. r < a \<and> a < hi \<longrightarrow> \<not> P a)
      else r = null" unfolding rightmost_def .
  with assms(2) have c: "lo \<le> r \<and> r < hi \<and> P r \<and> (\<forall>a. r < a \<and> a < hi \<longrightarrow> \<not> P a)"
    by (simp only: if_True simp_thms) blast
  from c show "lo \<le> r" "r < hi" "P r" by blast+
  from c show "\<And>a. r < a \<Longrightarrow> a < hi \<Longrightarrow> \<not> P a" by blast
qed

lemma rightmost_noneD:
  assumes "rightmost P lo hi r" "\<not> (\<exists>a. lo \<le> a \<and> a < hi \<and> P a)"
  shows "r = null"
proof -
  from assms(1) have "if \<exists>a. lo \<le> a \<and> a < hi \<and> P a
      then lo \<le> r \<and> r < hi \<and> P r \<and> (\<forall>a. r < a \<and> a < hi \<longrightarrow> \<not> P a)
      else r = null" unfolding rightmost_def .
  with assms(2) show ?thesis by (simp only: if_False)
qed

lemma rightmost_unique:
  assumes "rightmost P lo hi r" "rightmost P lo hi r'"
  shows "r = r'"
proof (cases "\<exists>a. lo \<le> a \<and> a < hi \<and> P a")
  case True
  note r = rightmost_foundD [OF assms(1) True] and r' = rightmost_foundD [OF assms(2) True]
  have "\<not> r < r'" using r'(2,3) r(4) by blast
  moreover have "\<not> r' < r" using r(2,3) r'(4) by blast
  ultimately show ?thesis by simp
next
  case False
  then show ?thesis using rightmost_noneD [OF assms(1)] rightmost_noneD [OF assms(2)] by simp
qed

subsection \<open>memchr\<close>

lemma memchr_leftmost:
  "readable mem s n \<Longrightarrow> \<exists>r. memchr mem s c n = Some r \<and> leftmost (is_char mem c) s (s + n) r"
proof (induction n arbitrary: s)
  case 0
  then show ?case by (simp add: leftmost_none)
next
  case (Suc n)
  from Suc.prems obtain b where b: "load8 mem s = Some b"
    using readableD [of mem s "Suc n" s] by auto
  show ?case
  proof (cases "b = c")
    case True
    then show ?thesis using b by (auto intro!: leftmost_found simp add: is_char_def)
  next
    case False
    have "readable mem (s + 1) n" using Suc.prems by (rule readable_sub) auto
    from Suc.IH [OF this] obtain r where
      r: "memchr mem (s + 1) c n = Some r" "leftmost (is_char mem c) (Suc s) (s + Suc n) r"
      by auto
    have "leftmost (is_char mem c) s (s + Suc n) r"
      by (rule leftmost_step) (use False b r in \<open>auto simp add: is_char_def\<close>)
    then show ?thesis using b False r by simp
  qed
qed

lemma memchr_in_set:
  assumes "readable mem q m"
  shows "\<exists>r. memchr mem q b m = Some r \<and> (r \<noteq> null \<longleftrightarrow> Some b \<in> set (bytes mem q m))"
proof -
  from memchr_leftmost [OF assms] obtain r where
    r: "memchr mem q b m = Some r" "leftmost (is_char mem b) q (q + m) r" by blast
  have "r \<noteq> null \<longleftrightarrow> (\<exists>a. q \<le> a \<and> a < q + m \<and> is_char mem b a)"
  proof (cases "\<exists>a. q \<le> a \<and> a < q + m \<and> is_char mem b a")
    case True
    with r(2) have "is_char mem b r" by (simp add: leftmost_def)
    then have "r \<noteq> null" by (auto simp add: is_char_def dest: load8_Some_nonnull)
    with True show ?thesis by simp
  next
    case False
    with r(2) show ?thesis by (simp add: leftmost_def)
  qed
  also have "\<dots> \<longleftrightarrow> Some b \<in> set (bytes mem q m)"
  proof
    assume "\<exists>a. q \<le> a \<and> a < q + m \<and> is_char mem b a"
    then obtain a where "q \<le> a" "a < q + m" "load8 mem a = Some b"
      by (auto simp add: is_char_def)
    then have "Some b = load8 mem a \<and> q \<le> a \<and> a < q + m" by simp
    then show "Some b \<in> set (bytes mem q m)" unfolding set_bytes by blast
  next
    assume "Some b \<in> set (bytes mem q m)"
    then obtain a where "Some b = load8 mem a" "q \<le> a" "a < q + m"
      unfolding set_bytes by blast
    then have "q \<le> a \<and> a < q + m \<and> is_char mem b a" by (simp add: is_char_def)
    then show "\<exists>a. q \<le> a \<and> a < q + m \<and> is_char mem b a" by blast
  qed
  finally show ?thesis using r(1) by simp
qed



subsection \<open>Forward any-of-set loops\<close>

lemma in_set_memchr:
  assumes "readable mem q m" "load8 mem a = Some b"
  shows "\<exists>r. memchr mem q b m = Some r \<and> (r \<noteq> null \<longleftrightarrow> in_set mem q m a)"
  using memchr_in_set [OF assms(1), of b] assms(2) by (simp add: in_set_def)

lemma stringFindAny_loop_leftmost:
  assumes "readable mem q m"
  shows "i \<le> endp \<Longrightarrow> readable mem i (endp - i) \<Longrightarrow>
    \<exists>r. stringFindAny_loop mem i endp q m = Some r \<and> leftmost (in_set mem q m) i endp r"
proof (induction "endp - i" arbitrary: i)
  case 0
  then have "i = endp" by simp
  then show ?case by (subst stringFindAny_loop.simps) (simp add: leftmost_none)
next
  case (Suc n)
  then have lt: "i < endp" by simp
  from Suc.prems obtain b where b: "load8 mem i = Some b"
    using readableD [of mem i "endp - i" i] lt by auto
  from in_set_memchr [OF assms b] obtain f where
    f: "memchr mem q b m = Some f" "f \<noteq> null \<longleftrightarrow> in_set mem q m i" by blast
  show ?case
  proof (cases "f \<noteq> null")
    case True
    then have "stringFindAny_loop mem i endp q m = Some i"
      using lt b f by (subst stringFindAny_loop.simps) simp
    moreover have "leftmost (in_set mem q m) i endp i"
      by (rule leftmost_found) (use True f lt in auto)
    ultimately show ?thesis by simp
  next
    case False
    have "readable mem (i + 1) (endp - (i + 1))"
      using Suc.prems(2) by (rule readable_sub) (use lt in auto)
    moreover have "n = endp - (i + 1)" using Suc.hyps(2) by simp
    ultimately obtain r where
      r: "stringFindAny_loop mem (i + 1) endp q m = Some r" "leftmost (in_set mem q m) (Suc i) endp r"
      using Suc.hyps(1) [of "i + 1"] lt by auto
    have "stringFindAny_loop mem i endp q m = Some r"
      using lt b f False r(1) by (subst stringFindAny_loop.simps) simp
    moreover have "leftmost (in_set mem q m) i endp r"
      by (rule leftmost_step) (use False f r in auto)
    ultimately show ?thesis by simp
  qed
qed

lemma stringFindNotAny_loop_leftmost:
  assumes "readable mem q m"
  shows "i \<le> endp \<Longrightarrow> readable mem i (endp - i) \<Longrightarrow>
    \<exists>r. stringFindNotAny_loop mem i endp q m = Some r
       \<and> leftmost (\<lambda>a. \<not> in_set mem q m a) i endp r"
proof (induction "endp - i" arbitrary: i)
  case 0
  then have "i = endp" by simp
  then show ?case by (subst stringFindNotAny_loop.simps) (simp add: leftmost_none)
next
  case (Suc n)
  then have lt: "i < endp" by simp
  from Suc.prems obtain b where b: "load8 mem i = Some b"
    using readableD [of mem i "endp - i" i] lt by auto
  from in_set_memchr [OF assms b] obtain f where
    f: "memchr mem q b m = Some f" "f \<noteq> null \<longleftrightarrow> in_set mem q m i" by blast
  show ?case
  proof (cases "f \<noteq> null")
    case False
    then have "stringFindNotAny_loop mem i endp q m = Some i"
      using lt b f by (subst stringFindNotAny_loop.simps) simp
    moreover have "leftmost (\<lambda>a. \<not> in_set mem q m a) i endp i"
      by (rule leftmost_found) (use False f lt in auto)
    ultimately show ?thesis by simp
  next
    case True
    have "readable mem (i + 1) (endp - (i + 1))"
      using Suc.prems(2) by (rule readable_sub) (use lt in auto)
    moreover have "n = endp - (i + 1)" using Suc.hyps(2) by simp
    ultimately obtain r where
      r: "stringFindNotAny_loop mem (i + 1) endp q m = Some r"
         "leftmost (\<lambda>a. \<not> in_set mem q m a) (Suc i) endp r"
      using Suc.hyps(1) [of "i + 1"] lt by auto
    have "stringFindNotAny_loop mem i endp q m = Some r"
      using lt b f True r(1) by (subst stringFindNotAny_loop.simps) simp
    moreover have "leftmost (\<lambda>a. \<not> in_set mem q m a) i endp r"
      by (rule leftmost_step) (use True f r in auto)
    ultimately show ?thesis by simp
  qed
qed

lemma findCharacter_scalar_loop_leftmost:
  "i \<le> endp \<Longrightarrow> readable mem i (endp - i) \<Longrightarrow>
    \<exists>r. findCharacter_scalar_loop mem i endp c = Some r \<and> leftmost (is_char mem c) i endp r"
proof (induction "endp - i" arbitrary: i)
  case 0
  then have "i = endp" by simp
  then show ?case by (subst findCharacter_scalar_loop.simps) (simp add: leftmost_none)
next
  case (Suc n)
  then have lt: "i < endp" by simp
  from Suc.prems obtain b where b: "load8 mem i = Some b"
    using readableD [of mem i "endp - i" i] lt by auto
  show ?case
  proof (cases "b = c")
    case True
    then have "findCharacter_scalar_loop mem i endp c = Some i"
      using lt b by (subst findCharacter_scalar_loop.simps) simp
    moreover have "leftmost (is_char mem c) i endp i"
      by (rule leftmost_found) (use True b lt in \<open>auto simp add: is_char_def\<close>)
    ultimately show ?thesis by simp
  next
    case False
    have "readable mem (i + 1) (endp - (i + 1))"
      using Suc.prems(2) by (rule readable_sub) (use lt in auto)
    moreover have "n = endp - (i + 1)" using Suc.hyps(2) by simp
    ultimately obtain r where
      r: "findCharacter_scalar_loop mem (i + 1) endp c = Some r"
         "leftmost (is_char mem c) (Suc i) endp r"
      using Suc.hyps(1) [of "i + 1"] lt by auto
    have "findCharacter_scalar_loop mem i endp c = Some r"
      using lt b False r(1) by (subst findCharacter_scalar_loop.simps) simp
    moreover have "leftmost (is_char mem c) i endp r"
      by (rule leftmost_step) (use False b r in \<open>auto simp add: is_char_def\<close>)
    ultimately show ?thesis by simp
  qed
qed

subsection \<open>Backward loops\<close>

lemma stringFindLastAny_loop_rightmost:
  assumes "readable mem q m"
  shows "data \<le> i \<Longrightarrow> readable mem data (i - data) \<Longrightarrow>
    \<exists>r. stringFindLastAny_loop mem data i q m = Some r \<and> rightmost (in_set mem q m) data i r"
proof (induction "i - data" arbitrary: i)
  case 0
  then have "i = data" by simp
  then show ?case by (subst stringFindLastAny_loop.simps) (simp add: rightmost_none)
next
  case (Suc n)
  then have lt: "data < i" by simp
  then obtain j where j: "i = Suc j" "data \<le> j" by (cases i) auto
  from Suc.prems obtain b where b: "load8 mem j = Some b"
    using readableD [of mem data "i - data" j] j by auto
  from in_set_memchr [OF assms b] obtain f where
    f: "memchr mem q b m = Some f" "f \<noteq> null \<longleftrightarrow> in_set mem q m j" by blast
  show ?case
  proof (cases "f \<noteq> null")
    case True
    then have "stringFindLastAny_loop mem data i q m = Some j"
      using lt b f j by (subst stringFindLastAny_loop.simps) simp
    moreover have "rightmost (in_set mem q m) data i j"
      by (rule rightmost_found) (use True f j in auto)
    ultimately show ?thesis by simp
  next
    case False
    have "readable mem data (j - data)"
      using Suc.prems(2) by (rule readable_sub) (use j in auto)
    moreover have "n = j - data" using Suc.hyps(2) j by simp
    ultimately obtain r where
      r: "stringFindLastAny_loop mem data j q m = Some r" "rightmost (in_set mem q m) data j r"
      using Suc.hyps(1) [of j] j by auto
    have "stringFindLastAny_loop mem data i q m = Some r"
      using lt b f False r(1) j by (subst stringFindLastAny_loop.simps) simp
    moreover have "rightmost (in_set mem q m) data i r"
      unfolding j(1) by (rule rightmost_step) (use False f r in auto)
    ultimately show ?thesis by simp
  qed
qed

lemma stringFindLastNotAny_loop_rightmost:
  assumes "readable mem q m"
  shows "data \<le> i \<Longrightarrow> readable mem data (i - data) \<Longrightarrow>
    \<exists>r. stringFindLastNotAny_loop mem data i q m = Some r
       \<and> rightmost (\<lambda>a. \<not> in_set mem q m a) data i r"
proof (induction "i - data" arbitrary: i)
  case 0
  then have "i = data" by simp
  then show ?case by (subst stringFindLastNotAny_loop.simps) (simp add: rightmost_none)
next
  case (Suc n)
  then have lt: "data < i" by simp
  then obtain j where j: "i = Suc j" "data \<le> j" by (cases i) auto
  from Suc.prems obtain b where b: "load8 mem j = Some b"
    using readableD [of mem data "i - data" j] j by auto
  from in_set_memchr [OF assms b] obtain f where
    f: "memchr mem q b m = Some f" "f \<noteq> null \<longleftrightarrow> in_set mem q m j" by blast
  show ?case
  proof (cases "f \<noteq> null")
    case False
    then have "stringFindLastNotAny_loop mem data i q m = Some j"
      using lt b f j by (subst stringFindLastNotAny_loop.simps) simp
    moreover have "rightmost (\<lambda>a. \<not> in_set mem q m a) data i j"
      by (rule rightmost_found) (use False f j in auto)
    ultimately show ?thesis by simp
  next
    case True
    have "readable mem data (j - data)"
      using Suc.prems(2) by (rule readable_sub) (use j in auto)
    moreover have "n = j - data" using Suc.hyps(2) j by simp
    ultimately obtain r where
      r: "stringFindLastNotAny_loop mem data j q m = Some r"
         "rightmost (\<lambda>a. \<not> in_set mem q m a) data j r"
      using Suc.hyps(1) [of j] j by auto
    have "stringFindLastNotAny_loop mem data i q m = Some r"
      using lt b f True r(1) j by (subst stringFindLastNotAny_loop.simps) simp
    moreover have "rightmost (\<lambda>a. \<not> in_set mem q m a) data i r"
      unfolding j(1) by (rule rightmost_step) (use True f r in auto)
    ultimately show ?thesis by simp
  qed
qed

lemma stringFindLastCharacter_loop_rightmost:
  "data \<le> Suc i \<Longrightarrow> readable mem data (Suc i - data) \<Longrightarrow>
    \<exists>r. stringFindLastCharacter_loop mem data i c = Some r
       \<and> rightmost (is_char mem c) data (Suc i) r"
proof (induction "Suc i - data" arbitrary: i)
  case 0
  then have "\<not> data \<le> i" by simp
  then show ?case using 0
    by (subst stringFindLastCharacter_loop.simps) (simp add: rightmost_none)
next
  case (Suc n)
  then have le: "data \<le> i" by simp
  from Suc.prems obtain b where b: "load8 mem i = Some b"
    using readableD [of mem data "Suc i - data" i] le by auto
  show ?case
  proof (cases "b = c")
    case True
    have "rightmost (is_char mem c) data (Suc i) i"
      by (rule rightmost_found) (use True b le in \<open>auto simp add: is_char_def\<close>)
    then show ?thesis using le b True
      by (subst stringFindLastCharacter_loop.simps) simp
  next
    case False
    from b have "i \<noteq> null" by (rule load8_Some_nonnull)
    then obtain j where j: "i = Suc j" by (cases i) auto
    have "readable mem data (Suc j - data)"
      using Suc.prems(2) by (rule readable_sub) (use j le in auto)
    moreover have "n = Suc j - data" using Suc.hyps(2) j le by simp
    ultimately obtain r where
      r: "stringFindLastCharacter_loop mem data j c = Some r"
         "rightmost (is_char mem c) data (Suc j) r"
      using Suc.hyps(1) [of j] j le by auto
    have "rightmost (is_char mem c) data (Suc i) r"
      by (rule rightmost_step) (use False b r j in \<open>auto simp add: is_char_def\<close>)
    moreover have "stringFindLastCharacter_loop mem data i c = Some r"
      using le b False r(1) j by (subst stringFindLastCharacter_loop.simps) simp
    ultimately show ?thesis by simp
  qed
qed

subsection \<open>memcmp and the substring loops\<close>

lemma memcmp_zero_iff:
  "readable mem a n \<Longrightarrow> readable mem b n \<Longrightarrow>
   \<exists>r. memcmp mem a b n = Some r \<and> (r = 0 \<longleftrightarrow> bytes mem a n = bytes mem b n)"
proof (induction n arbitrary: a b)
  case 0
  then show ?case by simp
next
  case (Suc n)
  from Suc.prems(1) obtain x where x: "load8 mem a = Some x"
    using readableD [of mem a "Suc n" a] by auto
  from Suc.prems(2) obtain y where y: "load8 mem b = Some y"
    using readableD [of mem b "Suc n" b] by auto
  have "readable mem (a + 1) n" using Suc.prems(1) by (rule readable_sub) auto
  moreover have "readable mem (b + 1) n" using Suc.prems(2) by (rule readable_sub) auto
  ultimately obtain r where
    r: "memcmp mem (a + 1) (b + 1) n = Some r" "r = 0 \<longleftrightarrow> bytes mem (a + 1) n = bytes mem (b + 1) n"
    using Suc.IH by blast
  have ne: "x \<noteq> y \<Longrightarrow> uint x - uint y \<noteq> 0" by (simp add: word_uint_eq_iff)
  show ?case
    using x y r ne by (cases "x = y") (simp_all add: bytes_Suc)
qed

lemma memcmp_matches_at:
  assumes "readable mem a m" "readable mem q m"
  shows "\<exists>r. memcmp mem a q m = Some r \<and> (r = 0 \<longleftrightarrow> matches_at mem q m a)"
  using memcmp_zero_iff [OF assms] by (simp add: matches_at_def)

lemma stringFindString_loop_leftmost:
  assumes "readable mem q m" "0 < m"
  shows "data \<le> maxp + 1 \<Longrightarrow> readable mem data (maxp + m - data) \<Longrightarrow>
    \<exists>r. stringFindString_loop mem data maxp q m = Some r
       \<and> leftmost (matches_at mem q m) data (maxp + 1) r"
proof (induction "maxp + 1 - data" arbitrary: data)
  case 0
  then have "\<not> data \<le> maxp" by simp
  then show ?case
    by (subst stringFindString_loop.simps) (simp add: leftmost_none)
next
  case (Suc n)
  then have le: "data \<le> maxp" by simp
  have "readable mem data m"
    using Suc.prems(2) by (rule readable_sub) (use le assms(2) in auto)
  from memcmp_matches_at [OF this assms(1)] obtain r0 where
    r0: "memcmp mem data q m = Some r0" "r0 = 0 \<longleftrightarrow> matches_at mem q m data" by blast
  show ?case
  proof (cases "r0 = 0")
    case True
    have "leftmost (matches_at mem q m) data (maxp + 1) data"
      by (rule leftmost_found) (use True r0 le in auto)
    moreover have "stringFindString_loop mem data maxp q m = Some data"
      using le r0 True by (subst stringFindString_loop.simps) simp
    ultimately show ?thesis by simp
  next
    case False
    have "readable mem (data + 1) (maxp + m - (data + 1))"
      using Suc.prems(2) by (rule readable_sub) (use le assms(2) in auto)
    moreover have "n = maxp + 1 - (data + 1)" using Suc.hyps(2) by simp
    ultimately obtain r where
      r: "stringFindString_loop mem (data + 1) maxp q m = Some r"
         "leftmost (matches_at mem q m) (Suc data) (maxp + 1) r"
      using Suc.hyps(1) [of "data + 1"] le by auto
    have "leftmost (matches_at mem q m) data (maxp + 1) r"
      by (rule leftmost_step) (use False r0 r in auto)
    moreover have "stringFindString_loop mem data maxp q m = Some r"
      using le r0 False r(1) by (subst stringFindString_loop.simps) simp
    ultimately show ?thesis by simp
  qed
qed

lemma stringFindLastString_loop_rightmost:
  assumes "readable mem q m" "0 < m"
  shows "data \<le> Suc i \<Longrightarrow> readable mem data (i + m - data) \<Longrightarrow>
    \<exists>r. stringFindLastString_loop mem data i q m = Some r
       \<and> rightmost (matches_at mem q m) data (Suc i) r"
proof (induction "Suc i - data" arbitrary: i)
  case 0
  then have "\<not> data \<le> i" by simp
  then show ?case
    by (subst stringFindLastString_loop.simps) (simp add: rightmost_none)
next
  case (Suc n)
  then have le: "data \<le> i" by simp
  have "readable mem i m"
    using Suc.prems(2) by (rule readable_sub) (use le assms(2) in auto)
  from memcmp_matches_at [OF this assms(1)] obtain r0 where
    r0: "memcmp mem i q m = Some r0" "r0 = 0 \<longleftrightarrow> matches_at mem q m i" by blast
  show ?case
  proof (cases "r0 = 0")
    case True
    have "rightmost (matches_at mem q m) data (Suc i) i"
      by (rule rightmost_found) (use True r0 le in auto)
    moreover have "stringFindLastString_loop mem data i q m = Some i"
      using le r0 True by (subst stringFindLastString_loop.simps) simp
    ultimately show ?thesis by simp
  next
    case False
    from r0(1) False have "i \<noteq> null" by (rule memcmp_nonzero_reads)
    then obtain j where j: "i = Suc j" by (cases i) auto
    have "readable mem data (j + m - data)"
      using Suc.prems(2) by (rule readable_sub) (use le j assms(2) in auto)
    moreover have "n = Suc j - data" using Suc.hyps(2) j le by simp
    ultimately obtain r where
      r: "stringFindLastString_loop mem data j q m = Some r"
         "rightmost (matches_at mem q m) data (Suc j) r"
      using Suc.hyps(1) [of j] le j by auto
    have "rightmost (matches_at mem q m) data (Suc i) r"
      by (rule rightmost_step) (use False r0 r j in auto)
    moreover have "stringFindLastString_loop mem data i q m = Some r"
      using le r0 False r(1) j by (subst stringFindLastString_loop.simps) simp
    ultimately show ?thesis by simp
  qed
qed

lemma stringFindString_leftmost:
  assumes "0 < m" "m \<le> sz" "readable mem data sz" "readable mem q m"
  shows "\<exists>r. stringFindString mem data sz q m = Some r
           \<and> leftmost (matches_at mem q m) data (data + sz - m + 1) r"
proof -
  have "data \<le> data + sz - m + 1" using assms(2) by simp
  moreover have "readable mem data (data + sz - m + m - data)" using assms(2,3) by simp
  ultimately have "\<exists>r. stringFindString_loop mem data (data + sz - m) q m = Some r
      \<and> leftmost (matches_at mem q m) data (data + sz - m + 1) r"
    by (rule stringFindString_loop_leftmost [OF assms(4,1)])
  moreover have "stringFindString mem data sz q m
      = stringFindString_loop mem data (data + sz - m) q m"
    using assms(1,2) by (simp add: stringFindString_def)
  ultimately show ?thesis by (simp only:)
qed

lemma stringFindLastString_rightmost:
  assumes "0 < m" "m \<le> sz" "readable mem data sz" "readable mem q m"
  shows "\<exists>r. stringFindLastString mem data sz q m = Some r
           \<and> rightmost (matches_at mem q m) data (data + sz - m + 1) r"
proof -
  have "data \<le> Suc (data + sz - m)" using assms(2) by simp
  moreover have "readable mem data (data + sz - m + m - data)" using assms(2,3) by simp
  ultimately have "\<exists>r. stringFindLastString_loop mem data (data + sz - m) q m = Some r
      \<and> rightmost (matches_at mem q m) data (Suc (data + sz - m)) r"
    by (rule stringFindLastString_loop_rightmost [OF assms(4,1)])
  moreover have "stringFindLastString mem data sz q m
      = stringFindLastString_loop mem data (data + sz - m) q m"
    using assms(1,2) by (simp add: stringFindLastString_def)
  moreover have "Suc (data + sz - m) = data + sz - m + 1" by simp
  ultimately show ?thesis by (simp only:)
qed


subsection \<open>Substring search: the claims\<close>

lemma stringFindString_empty_needle: "stringFindString mem data sz q 0 = Some data"
  by (simp add: stringFindString_def stringFindString_loop.simps [of mem data "data + sz"])

lemma stringFindLastString_empty_needle:
  "stringFindLastString mem data sz q 0 = Some (data + sz)"
  by (simp add: stringFindLastString_def
      stringFindLastString_loop.simps [of mem data "data + sz"])

lemma needle_too_long:
  "sz < m \<Longrightarrow> stringFindString mem data sz q m = Some null"
  "sz < m \<Longrightarrow> stringFindLastString mem data sz q m = Some null"
  by (simp_all add: stringFindString_def stringFindLastString_def)

lemma holds_load8:
  assumes "holds mem p bs" "k < length bs"
  shows "load8 mem (p + k) = Some (bs ! k)"
proof -
  have "bytes mem p (length bs) ! k = map Some bs ! k" using assms(1) by (simp add: holds_def)
  then show ?thesis using assms(2) by simp
qed

lemma holds_readable:
  assumes "holds mem p bs"
  shows "readable mem p (length bs)"
  unfolding readable_def
proof (intro allI impI)
  fix a assume a: "p \<le> a \<and> a < p + length bs"
  then have "a - p < length bs" "a = p + (a - p)" by auto
  then show "load8 mem a \<noteq> None" using holds_load8 [OF assms, of "a - p"] by simp
qed

lemma leftmost_null_iff:
  assumes "leftmost P lo hi r" "\<not> P null"
  shows "r = null \<longleftrightarrow> \<not> (\<exists>a. lo \<le> a \<and> a < hi \<and> P a)"
proof (cases "\<exists>a. lo \<le> a \<and> a < hi \<and> P a")
  case True
  from leftmost_foundD(3) [OF assms(1) True] assms(2) have "r \<noteq> null" by metis
  with True show ?thesis by simp
next
  case False
  with leftmost_noneD [OF assms(1)] show ?thesis by simp
qed

lemma rightmost_null_iff:
  assumes "rightmost P lo hi r" "\<not> P null"
  shows "r = null \<longleftrightarrow> \<not> (\<exists>a. lo \<le> a \<and> a < hi \<and> P a)"
proof (cases "\<exists>a. lo \<le> a \<and> a < hi \<and> P a")
  case True
  from rightmost_foundD(3) [OF assms(1) True] assms(2) have "r \<noteq> null" by metis
  with True show ?thesis by simp
next
  case False
  with rightmost_noneD [OF assms(1)] show ?thesis by simp
qed

lemma matches_at_nonnull: "0 < m \<Longrightarrow> readable mem q m \<Longrightarrow> \<not> matches_at mem q m null"
proof
  assume m: "0 < m" and r: "readable mem q m" and "matches_at mem q m null"
  then have "bytes mem null m ! 0 = bytes mem q m ! 0" by (simp add: matches_at_def)
  then have "load8 mem q = None" using m by simp
  moreover have "q \<le> q \<and> q < q + m" using m by simp
  ultimately show False using r unfolding readable_def by blast
qed

text \<open>
  Claim C3, as amended. For every haystack \<open>(data, size)\<close>: an empty needle matches at
  offset 0 in the forward search \<open>stringFindString\<close> and at offset \<open>size\<close>, the end of
  the haystack, in the backward search \<open>stringFindLastString\<close>; a needle longer than
  the haystack yields not-found in both. No byte is read in any of these cases: the
  statement holds for every memory.
\<close>

theorem substring_degenerate_needles:
  "stringFindString mem data sz q 0 = Some (data + 0)
   \<and> stringFindLastString mem data sz q 0 = Some (data + sz)
   \<and> (sz < m \<longrightarrow> stringFindString mem data sz q m = Some null
                \<and> stringFindLastString mem data sz q m = Some null)"
  by (simp add: stringFindString_empty_needle stringFindLastString_empty_needle needle_too_long)

theorem substring_degenerate_needles_witness:
  "stringFindString (place 4096 (bytes_of ''abc'')) 4096 3 8192 0 = Some 4096
   \<and> stringFindLastString (place 4096 (bytes_of ''abc'')) 4096 3 8192 0 = Some 4099
   \<and> stringFindString (place 4096 (bytes_of ''abc'')) 4096 3 8192 5 = Some null
   \<and> stringFindLastString (place 4096 (bytes_of ''abc'')) 4096 3 8192 5 = Some null"
  using substring_degenerate_needles [of "place 4096 (bytes_of ''abc'')" 4096 3 8192 5]
  by simp

text \<open>
  Claim C3 as stated fails for the backward search: on the 3-byte haystack \<open>abc\<close> at
  address 4096 the empty needle is found at offset 3, not at offset 0.
\<close>

theorem empty_needle_backward_counterexample:
  "\<not> stringFindLastString (place 4096 (bytes_of ''abc'')) 4096 3 8192 0 = Some (4096 + 0)"
  by (simp add: stringFindLastString_empty_needle)

lemma memcmp_readable_Some:
  assumes "readable mem a m" "readable mem q m"
  shows "memcmp mem a q m \<noteq> None"
  using memcmp_zero_iff [OF assms] by auto

lemma stringFindString_loop_find:
  assumes ok: "\<And>a. data0 \<le> a \<Longrightarrow> a \<le> maxp \<Longrightarrow> memcmp mem a q m \<noteq> None"
  shows "data0 \<le> data \<Longrightarrow> data \<le> maxp + 1 \<Longrightarrow>
    stringFindString_loop mem data maxp q m =
      Some (case List.find (\<lambda>a. memcmp mem a q m = Some 0) [data..<maxp + 1] of
              None \<Rightarrow> null | Some a \<Rightarrow> a)"
proof (induction "maxp + 1 - data" arbitrary: data)
  case 0
  then have "\<not> data \<le> maxp" by simp
  then show ?case by (subst stringFindString_loop.simps) simp
next
  case (Suc n)
  then have le: "data \<le> maxp" by simp
  from ok [OF Suc.prems(1) le] obtain r0 where r0: "memcmp mem data q m = Some r0" by auto
  have upt: "[data..<maxp + 1] = data # [data + 1..<maxp + 1]"
    using le by (simp add: upt_conv_Cons del: upt_Suc)
  show ?case
  proof (cases "r0 = 0")
    case True
    then show ?thesis using le r0 upt by (subst stringFindString_loop.simps) simp
  next
    case False
    have "n = maxp + 1 - (data + 1)" using Suc.hyps(2) by simp
    from Suc.hyps(1) [OF this] Suc.prems(1) le
    have "stringFindString_loop mem (data + 1) maxp q m =
      Some (case List.find (\<lambda>a. memcmp mem a q m = Some 0) [data + 1..<maxp + 1] of
              None \<Rightarrow> null | Some a \<Rightarrow> a)" by simp
    then show ?thesis using le r0 False upt by (subst stringFindString_loop.simps) simp
  qed
qed

lemma stringFindLastString_loop_find:
  assumes ok: "\<And>a. data \<le> a \<Longrightarrow> a \<le> i0 \<Longrightarrow> memcmp mem a q m \<noteq> None"
  shows "i \<le> i0 \<Longrightarrow> data \<le> Suc i \<Longrightarrow>
    stringFindLastString_loop mem data i q m =
      Some (case List.find (\<lambda>a. memcmp mem a q m = Some 0) (rev [data..<Suc i]) of
              None \<Rightarrow> null | Some a \<Rightarrow> a)"
proof (induction "Suc i - data" arbitrary: i)
  case 0
  then have "\<not> data \<le> i" by simp
  then show ?case by (subst stringFindLastString_loop.simps) simp
next
  case (Suc n)
  then have le: "data \<le> i" by simp
  from ok [OF le Suc.prems(1)] obtain r0 where r0: "memcmp mem i q m = Some r0" by auto
  have upt: "rev [data..<Suc i] = i # rev [data..<i]" using le by simp
  show ?case
  proof (cases "r0 = 0")
    case True
    then show ?thesis using le r0 upt by (subst stringFindLastString_loop.simps) simp
  next
    case False
    from r0 False have "i \<noteq> null" by (rule memcmp_nonzero_reads)
    then obtain j where j: "i = Suc j" by (cases i) auto
    have "n = Suc j - data" using Suc.hyps(2) j le by simp
    from Suc.hyps(1) [OF this] Suc.prems(1) le j
    have "stringFindLastString_loop mem data j q m =
      Some (case List.find (\<lambda>a. memcmp mem a q m = Some 0) (rev [data..<Suc j]) of
              None \<Rightarrow> null | Some a \<Rightarrow> a)" by simp
    then show ?thesis using le r0 False upt j
      by (subst stringFindLastString_loop.simps) (simp del: upt_Suc)
  qed
qed

lemma substring_search_find:
  assumes "0 < m" "m \<le> sz" "readable mem data sz" "readable mem q m"
  shows "stringFindString mem data sz q m =
      Some (case List.find (\<lambda>a. memcmp mem a q m = Some 0) [data..<data + sz - m + 1] of
              None \<Rightarrow> null | Some a \<Rightarrow> a)"
    and "stringFindLastString mem data sz q m =
      Some (case List.find (\<lambda>a. memcmp mem a q m = Some 0) (rev [data..<data + sz - m + 1]) of
              None \<Rightarrow> null | Some a \<Rightarrow> a)"
proof -
  have ok: "memcmp mem a q m \<noteq> None" if "data \<le> a" "a \<le> data + sz - m" for a
  proof (rule memcmp_readable_Some [OF _ assms(4)])
    show "readable mem a m" using assms(3) by (rule readable_sub) (use that assms(2) in auto)
  qed
  have "stringFindString_loop mem data (data + sz - m) q m =
      Some (case List.find (\<lambda>a. memcmp mem a q m = Some 0) [data..<data + sz - m + 1] of
              None \<Rightarrow> null | Some a \<Rightarrow> a)"
    by (rule stringFindString_loop_find [where ?data0.0 = data]) (use ok assms(2) in auto)
  then show "stringFindString mem data sz q m =
      Some (case List.find (\<lambda>a. memcmp mem a q m = Some 0) [data..<data + sz - m + 1] of
              None \<Rightarrow> null | Some a \<Rightarrow> a)"
    using assms(1,2) by (simp add: stringFindString_def)
  have "stringFindLastString_loop mem data (data + sz - m) q m =
      Some (case List.find (\<lambda>a. memcmp mem a q m = Some 0)
              (rev [data..<Suc (data + sz - m)]) of None \<Rightarrow> null | Some a \<Rightarrow> a)"
    by (rule stringFindLastString_loop_find [where ?i0.0 = "data + sz - m"])
       (use ok assms(2) in auto)
  then show "stringFindLastString mem data sz q m =
      Some (case List.find (\<lambda>a. memcmp mem a q m = Some 0) (rev [data..<data + sz - m + 1]) of
              None \<Rightarrow> null | Some a \<Rightarrow> a)"
    using assms(1,2) by (simp add: stringFindLastString_def del: upt_Suc)
qed

text \<open>
  Claim C4. For a readable haystack \<open>(data, size)\<close> and a readable needle with
  \<open>0 < substringSize \<le> size\<close>, \<open>stringFindString\<close> returns the lowest address in
  \<open>[data, data + size - substringSize]\<close> at which the \<open>substringSize\<close> bytes equal the
  needle, and \<open>stringFindLastString\<close> the highest such address; each returns null exactly
  when there is no such address. Each result is that of trying the start addresses
  \<open>data, \<dots>, data + size - substringSize\<close> one after the other, in increasing
  respectively decreasing order, with one \<open>memcmp\<close> of \<open>substringSize\<close> bytes per
  address, and taking the first one where it returns 0.
\<close>

theorem substring_search_first_last:
  assumes "0 < m" "m \<le> sz" "readable mem data sz" "readable mem q m"
  shows "(\<exists>r. stringFindString mem data sz q m = Some r
            \<and> leftmost (matches_at mem q m) data (data + sz - m + 1) r
            \<and> (r = null \<longleftrightarrow> \<not> (\<exists>a. data \<le> a \<and> a < data + sz - m + 1 \<and> matches_at mem q m a)))
       \<and> (\<exists>r. stringFindLastString mem data sz q m = Some r
            \<and> rightmost (matches_at mem q m) data (data + sz - m + 1) r
            \<and> (r = null \<longleftrightarrow> \<not> (\<exists>a. data \<le> a \<and> a < data + sz - m + 1 \<and> matches_at mem q m a)))
       \<and> stringFindString mem data sz q m =
           Some (case List.find (\<lambda>a. memcmp mem a q m = Some 0) [data..<data + sz - m + 1] of
                   None \<Rightarrow> null | Some a \<Rightarrow> a)
       \<and> stringFindLastString mem data sz q m =
           Some (case List.find (\<lambda>a. memcmp mem a q m = Some 0)
                   (rev [data..<data + sz - m + 1]) of None \<Rightarrow> null | Some a \<Rightarrow> a)"
proof -
  note nn = matches_at_nonnull [OF assms(1,4)]
  from stringFindString_leftmost [OF assms] obtain r where
    r: "stringFindString mem data sz q m = Some r"
       "leftmost (matches_at mem q m) data (data + sz - m + 1) r" by blast
  from stringFindLastString_rightmost [OF assms] obtain r' where
    r': "stringFindLastString mem data sz q m = Some r'"
        "rightmost (matches_at mem q m) data (data + sz - m + 1) r'" by blast
  have "(\<exists>r. stringFindString mem data sz q m = Some r
            \<and> leftmost (matches_at mem q m) data (data + sz - m + 1) r
            \<and> (r = null \<longleftrightarrow> \<not> (\<exists>a. data \<le> a \<and> a < data + sz - m + 1 \<and> matches_at mem q m a)))
       \<and> (\<exists>r. stringFindLastString mem data sz q m = Some r
            \<and> rightmost (matches_at mem q m) data (data + sz - m + 1) r
            \<and> (r = null \<longleftrightarrow> \<not> (\<exists>a. data \<le> a \<and> a < data + sz - m + 1 \<and> matches_at mem q m a)))"
    using r r' leftmost_null_iff [OF r(2) nn] rightmost_null_iff [OF r'(2) nn] by simp
  then show ?thesis using substring_search_find [OF assms] by (simp only: simp_thms)
qed

lemma abcabc_holds:
  "holds abcabc 19 (bytes_of ''abcabc'')" "holds abcabc 40 (bytes_of ''bc'')"
  by (simp_all add: holds_def abcabc_def place_def bytes_def bytes_of_def load8_def
      map_add_def upt_rec nth_Cons')

theorem substring_search_first_last_witness:
  "readable abcabc 19 6 \<and> readable abcabc 40 2
   \<and> stringFindString abcabc 19 6 40 2 = Some 20
   \<and> stringFindLastString abcabc 19 6 40 2 = Some 23
   \<and> leftmost (matches_at abcabc 40 2) 19 (19 + 6 - 2 + 1) 20
   \<and> rightmost (matches_at abcabc 40 2) 19 (19 + 6 - 2 + 1) 23"
proof -
  have len: "length (bytes_of ''abcabc'') = 6" "length (bytes_of ''bc'') = 2"
    by (simp_all add: bytes_of_def)
  have h1: "readable abcabc 19 6" using holds_readable [OF abcabc_holds(1)]
    by (simp only: len)
  have h2: "readable abcabc 40 2" using holds_readable [OF abcabc_holds(2)]
    by (simp only: len)
  have v1: "stringFindString abcabc 19 6 40 2 = Some 20"
    unfolding abcabc_def by code_simp
  have v2: "stringFindLastString abcabc 19 6 40 2 = Some 23"
    unfolding abcabc_def by code_simp
  show ?thesis
    using substring_search_first_last [of 2 6 abcabc 19 40] h1 h2 v1 v2 by simp
qed

subsection \<open>The scalar byte and any-of-set searches\<close>

lemma stringFindAny_leftmost:
  assumes "readable mem data sz" "readable mem q m"
  shows "\<exists>r. stringFindAny mem data sz q m = Some r \<and> leftmost (in_set mem q m) data (data + sz) r"
  using stringFindAny_loop_leftmost [OF assms(2), of data "data + sz"] assms(1)
  by (simp add: stringFindAny_def)

lemma stringFindNotAny_leftmost:
  assumes "readable mem data sz" "readable mem q m"
  shows "\<exists>r. stringFindNotAny mem data sz q m = Some r
           \<and> leftmost (\<lambda>a. \<not> in_set mem q m a) data (data + sz) r"
  using stringFindNotAny_loop_leftmost [OF assms(2), of data "data + sz"] assms(1)
  by (simp add: stringFindNotAny_def)

lemma stringFindLastAny_rightmost:
  assumes "readable mem data sz" "readable mem q m"
  shows "\<exists>r. stringFindLastAny mem data sz q m = Some r
           \<and> rightmost (in_set mem q m) data (data + sz) r"
  using stringFindLastAny_loop_rightmost [OF assms(2), of data "data + sz"] assms(1)
  by (simp add: stringFindLastAny_def)

lemma stringFindLastNotAny_rightmost:
  assumes "readable mem data sz" "readable mem q m"
  shows "\<exists>r. stringFindLastNotAny mem data sz q m = Some r
           \<and> rightmost (\<lambda>a. \<not> in_set mem q m a) data (data + sz) r"
  using stringFindLastNotAny_loop_rightmost [OF assms(2), of data "data + sz"] assms(1)
  by (simp add: stringFindLastNotAny_def)

lemma stringFindLastCharacter_rightmost:
  assumes "readable mem data sz"
  shows "\<exists>r. stringFindLastCharacter mem data sz c = Some r
           \<and> rightmost (is_char mem c) data (data + sz) r"
proof (cases "data = null")
  case True
  then have "sz = 0" using readable_nonnull [OF assms] by auto
  then show ?thesis using True by (simp add: stringFindLastCharacter_def rightmost_none)
next
  case False
  then obtain d where d: "data = Suc d" by (cases data) auto
  have "data \<le> Suc (d + sz)" using d by simp
  moreover have "readable mem data (Suc (d + sz) - data)" using assms d by simp
  ultimately have "\<exists>r. stringFindLastCharacter_loop mem data (d + sz) c = Some r
      \<and> rightmost (is_char mem c) data (Suc (d + sz)) r"
    by (rule stringFindLastCharacter_loop_rightmost)
  moreover have "stringFindLastCharacter mem data sz c
      = stringFindLastCharacter_loop mem data (d + sz) c"
    using d by (simp add: stringFindLastCharacter_def)
  moreover have "Suc (d + sz) = data + sz" using d by simp
  ultimately show ?thesis by (simp only:)
qed

lemma readable_place: "base \<noteq> null \<Longrightarrow> n \<le> length bs \<Longrightarrow> readable (place base bs) base n"
  by (auto simp add: readable_def place_def load8_def)

lemma in_set_empty: "\<not> in_set mem q 0 a"
  by (simp add: in_set_def)

text \<open>
  Claim C9. For every readable buffer \<open>(data, size)\<close> and an empty character set
  (\<open>characterCount = 0\<close>, whatever the pointer \<open>characters\<close>): \<open>stringFindAny\<close> and
  \<open>stringFindLastAny\<close> return not-found, and when \<open>size > 0\<close> \<open>stringFindNotAny\<close>
  returns \<open>data\<close> (offset 0) and \<open>stringFindLastNotAny\<close> returns \<open>data + size - 1\<close>.
\<close>

theorem empty_character_set:
  assumes "readable mem data sz"
  shows "stringFindAny mem data sz characters 0 = Some null
       \<and> stringFindLastAny mem data sz characters 0 = Some null
       \<and> (0 < sz \<longrightarrow> stringFindNotAny mem data sz characters 0 = Some data
                    \<and> stringFindLastNotAny mem data sz characters 0 = Some (data + sz - 1))"
proof -
  have q: "readable mem characters 0" by simp
  have none: "\<not> (\<exists>a. data \<le> a \<and> a < data + sz \<and> in_set mem characters 0 a)"
    by (simp add: in_set_empty)
  from stringFindAny_leftmost [OF assms q] obtain r1 where
    r1: "stringFindAny mem data sz characters 0 = Some r1"
        "leftmost (in_set mem characters 0) data (data + sz) r1" by blast
  from leftmost_noneD [OF r1(2) none] r1(1)
  have a: "stringFindAny mem data sz characters 0 = Some null" by simp
  from stringFindLastAny_rightmost [OF assms q] obtain r2 where
    r2: "stringFindLastAny mem data sz characters 0 = Some r2"
        "rightmost (in_set mem characters 0) data (data + sz) r2" by blast
  from rightmost_noneD [OF r2(2) none] r2(1)
  have b: "stringFindLastAny mem data sz characters 0 = Some null" by simp
  have c: "stringFindNotAny mem data sz characters 0 = Some data
         \<and> stringFindLastNotAny mem data sz characters 0 = Some (data + sz - 1)" if pos: "0 < sz"
  proof -
    from stringFindNotAny_leftmost [OF assms q] obtain r3 where
      r3: "stringFindNotAny mem data sz characters 0 = Some r3"
          "leftmost (\<lambda>a. \<not> in_set mem characters 0 a) data (data + sz) r3" by blast
    have "leftmost (\<lambda>a. \<not> in_set mem characters 0 a) data (data + sz) data"
      by (rule leftmost_found) (use pos in \<open>auto simp add: in_set_empty\<close>)
    from leftmost_unique [OF r3(2) this] have e3: "r3 = data" .
    from stringFindLastNotAny_rightmost [OF assms q] obtain r4 where
      r4: "stringFindLastNotAny mem data sz characters 0 = Some r4"
          "rightmost (\<lambda>a. \<not> in_set mem characters 0 a) data (data + sz) r4" by blast
    have "rightmost (\<lambda>a. \<not> in_set mem characters 0 a) data (data + sz) (data + sz - 1)"
      by (rule rightmost_found) (use pos in \<open>auto simp add: in_set_empty\<close>)
    from rightmost_unique [OF r4(2) this] have e4: "r4 = data + sz - 1" .
    show ?thesis using r3(1) r4(1) e3 e4 by simp
  qed
  show ?thesis using a b c by blast
qed

theorem empty_character_set_witness:
  "readable (place 19 (bytes_of ''abc'')) 19 3
   \<and> stringFindAny (place 19 (bytes_of ''abc'')) 19 3 null 0 = Some null
   \<and> stringFindLastAny (place 19 (bytes_of ''abc'')) 19 3 null 0 = Some null
   \<and> stringFindNotAny (place 19 (bytes_of ''abc'')) 19 3 null 0 = Some 19
   \<and> stringFindLastNotAny (place 19 (bytes_of ''abc'')) 19 3 null 0 = Some 21"
proof -
  have h: "readable (place 19 (bytes_of ''abc'')) 19 3"
    by (rule readable_place) (simp_all add: bytes_of_def)
  show ?thesis
    using empty_character_set [OF h, of null] h by simp
qed


text \<open>
  Claim C8. Whenever memory holds the six bytes \<open>banana\<close> at \<open>data\<close> and the two bytes
  \<open>nz\<close> at \<open>characters\<close>, \<open>stringFindAny\<close> returns \<open>data + 2\<close> and
  \<open>stringFindLastAny\<close> returns \<open>data + 4\<close>.
\<close>

theorem banana_any_of_nz:
  assumes "holds mem data (bytes_of ''banana'')" "holds mem characters (bytes_of ''nz'')"
  shows "stringFindAny mem data 6 characters 2 = Some (data + 2)
       \<and> stringFindLastAny mem data 6 characters 2 = Some (data + 4)"
proof -
  have len: "length (bytes_of ''banana'') = 6" "length (bytes_of ''nz'') = 2"
    by (simp_all add: bytes_of_def)
  have rd: "readable mem data 6" using holds_readable [OF assms(1)] by (simp only: len)
  have rq: "readable mem characters 2" using holds_readable [OF assms(2)] by (simp only: len)
  have "bytes mem characters (length (bytes_of ''nz'')) = map Some (bytes_of ''nz'')"
    using assms(2) by (simp add: holds_def)
  then have "bytes mem characters 2 = map Some (bytes_of ''nz'')" by (simp only: len)
  then have set: "set (bytes mem characters 2) = {Some 110, Some 122}"
    by (simp add: bytes_of_def)
  have l0: "load8 mem data = Some 98" using holds_load8 [OF assms(1), of 0]
    by (simp add: bytes_of_def)
  have l1: "load8 mem (data + 1) = Some 97" using holds_load8 [OF assms(1), of 1]
    by (simp add: bytes_of_def)
  have l2: "load8 mem (data + 2) = Some 110" using holds_load8 [OF assms(1), of 2]
    by (simp add: bytes_of_def)
  have l4: "load8 mem (data + 4) = Some 110" using holds_load8 [OF assms(1), of 4]
    by (simp add: bytes_of_def)
  have l5: "load8 mem (data + 5) = Some 97" using holds_load8 [OF assms(1), of 5]
    by (simp add: bytes_of_def)
  have n0: "\<not> in_set mem characters 2 data" using l0 set by (simp add: in_set_def)
  have n1: "\<not> in_set mem characters 2 (data + 1)" using l1 set by (simp add: in_set_def)
  have y2: "in_set mem characters 2 (data + 2)" using l2 set by (simp add: in_set_def)
  have y4: "in_set mem characters 2 (data + 4)" using l4 set by (simp add: in_set_def)
  have n5: "\<not> in_set mem characters 2 (data + 5)" using l5 set by (simp add: in_set_def)
  have first: "leftmost (in_set mem characters 2) data (data + 6) (data + 2)"
  proof (rule leftmost_found)
    fix a assume "data \<le> a" "a < data + 2"
    then have "a = data \<or> a = data + 1" by arith
    then show "\<not> in_set mem characters 2 a" using n0 n1 by blast
  qed (use y2 in simp_all)
  have last: "rightmost (in_set mem characters 2) data (data + 6) (data + 4)"
  proof (rule rightmost_found)
    fix a assume "data + 4 < a" "a < data + 6"
    then have "a = data + 5" by arith
    then show "\<not> in_set mem characters 2 a" using n5 by blast
  qed (use y4 in simp_all)
  from stringFindAny_leftmost [OF rd rq] obtain r where
    r: "stringFindAny mem data 6 characters 2 = Some r"
       "leftmost (in_set mem characters 2) data (data + 6) r" by blast
  from stringFindLastAny_rightmost [OF rd rq] obtain r' where
    r': "stringFindLastAny mem data 6 characters 2 = Some r'"
        "rightmost (in_set mem characters 2) data (data + 6) r'" by blast
  show ?thesis
    using r(1) r'(1) leftmost_unique [OF r(2) first] rightmost_unique [OF r'(2) last] by simp
qed

lemma banana_holds:
  "holds banana 19 (bytes_of ''banana'')" "holds banana 40 (bytes_of ''nz'')"
  by (simp_all add: holds_def banana_def place_def bytes_def bytes_of_def load8_def
      map_add_def upt_rec nth_Cons')

theorem banana_any_of_nz_witness:
  "holds banana 19 (bytes_of ''banana'') \<and> holds banana 40 (bytes_of ''nz'')
   \<and> stringFindAny banana 19 6 40 2 = Some 21
   \<and> stringFindLastAny banana 19 6 40 2 = Some 23"
  using banana_any_of_nz [OF banana_holds] banana_holds by simp

section \<open>The vector intrinsics\<close>

lemma those_eq_Some_iff: "those xs = Some ys \<longleftrightarrow> xs = map Some ys"
proof (induction xs arbitrary: ys)
  case Nil
  then show ?case by auto
next
  case (Cons x xs)
  show ?case
  proof (cases x)
    case None
    then show ?thesis by (cases ys) auto
  next
    case (Some y)
    then show ?thesis using Cons.IH by (cases ys) (auto split: option.splits)
  qed
qed

lemma readable_bytes:
  assumes "readable mem p n"
  shows "bytes mem p n = map Some (map the (bytes mem p n))"
proof (rule nth_equalityI)
  fix k assume "k < length (bytes mem p n)"
  then have k: "k < n" by simp
  then obtain b where "load8 mem (p + k) = Some b"
    using readableD [OF assms, of "p + k"] by auto
  then show "bytes mem p n ! k = map Some (map the (bytes mem p n)) ! k" using k by simp
qed simp

lemma loadu_si_readable:
  assumes "readable mem at (vector_width t)"
  shows "\<exists>chunk. loadu_si t mem at = Some chunk \<and> length chunk = vector_width t
           \<and> (\<forall>k<vector_width t. load8 mem (at + k) = Some (chunk ! k))"
proof -
  let ?chunk = "map the (bytes mem at (vector_width t))"
  have eq: "bytes mem at (vector_width t) = map Some ?chunk" by (rule readable_bytes [OF assms])
  then have "loadu_si t mem at = Some ?chunk" by (simp only: loadu_si_def those_eq_Some_iff)
  moreover have "length ?chunk = vector_width t" by simp
  moreover have "\<forall>k<vector_width t. load8 mem (at + k) = Some (?chunk ! k)"
  proof (intro allI impI)
    fix k assume k: "k < vector_width t"
    have "bytes mem at (vector_width t) ! k = map Some ?chunk ! k" using eq by simp
    then show "load8 mem (at + k) = Some (?chunk ! k)" using k by simp
  qed
  ultimately show ?thesis by blast
qed

lemma vector_width_le_32: "vector_width t \<le> 32"
  by (cases t) simp_all

lemma bit_movemask_epi8:
  "bit (movemask_epi8 v) k \<longleftrightarrow> k < length v \<and> k < 32 \<and> bit (v ! k) 7"
  by (auto simp add: movemask_epi8_def bit_horner_sum_bit_word_iff)

lemma length_cmpeq_epi8 [simp]: "length (cmpeq_epi8 a b) = min (length a) (length b)"
  by (simp add: cmpeq_epi8_def)

lemma nth_cmpeq_epi8:
  "k < length a \<Longrightarrow> k < length b \<Longrightarrow>
   cmpeq_epi8 a b ! k = (if a ! k = b ! k then 0xFF else 0)"
  by (simp add: cmpeq_epi8_def)

lemma bit7_FF: "bit (0xFF :: byte) 7" "\<not> bit (0 :: byte) 7"
  by (simp_all add: bit_iff_odd)

lemma bit_movemask_cmpeq:
  assumes "length a = length b" "length a \<le> 32"
  shows "bit (movemask_epi8 (cmpeq_epi8 a b)) k \<longleftrightarrow> k < length a \<and> a ! k = b ! k"
  using assms by (auto simp add: bit_movemask_epi8 nth_cmpeq_epi8 bit7_FF split: if_splits)

lemma length_or_si [simp]: "length (or_si a b) = min (length a) (length b)"
  by (simp add: or_si_def)

lemma bit_movemask_or:
  assumes "length a = length b"
  shows "bit (movemask_epi8 (or_si a b)) k \<longleftrightarrow>
         bit (movemask_epi8 a) k \<or> bit (movemask_epi8 b) k"
  using assms by (auto simp add: bit_movemask_epi8 or_si_def bit_or_iff)

lemma movemask_or_eq_0:
  assumes "length a = length b"
  shows "movemask_epi8 (or_si a b) = 0 \<longleftrightarrow> movemask_epi8 a = 0 \<and> movemask_epi8 b = 0"
  by (auto simp add: bit_eq_iff bit_movemask_or [OF assms])

lemma tzcnt_u32_first_bit:
  assumes "x \<noteq> 0"
  shows "bit x (tzcnt_u32 x)" "\<And>j. j < tzcnt_u32 x \<Longrightarrow> \<not> bit x j"
proof -
  let ?P = "\<lambda>k. \<not> bit x k"
  let ?tw = "takeWhile ?P [0..<32]"
  from assms obtain k where k: "bit x k" by (auto simp add: bit_eq_iff)
  then have k32: "k < 32" using bit_imp_le_length [of x k] by simp
  have "k \<in> set [0..<32]" using k32 by simp
  then have "?tw \<noteq> [0..<32]" using k by (metis (mono_tags, lifting) set_takeWhileD)
  then have lt: "length ?tw < length [0..<32]"
    by (metis length_takeWhile_le le_neq_implies_less takeWhile_eq_take take_all_iff order_refl)
  from nth_length_takeWhile [OF lt] have "\<not> ?P ([0..<32] ! length ?tw)" .
  moreover have "[0..<32] ! length ?tw = length ?tw" using lt by simp
  ultimately show "bit x (tzcnt_u32 x)" by (simp add: tzcnt_u32_def)
  fix j assume "j < tzcnt_u32 x"
  then have j: "j < length ?tw" by (simp add: tzcnt_u32_def)
  then have "?tw ! j \<in> set ?tw" by (rule nth_mem)
  then have "?P (?tw ! j)" by (rule set_takeWhileD [THEN conjunct2])
  moreover have "?tw ! j = [0..<32] ! j" using j by (rule takeWhile_nth)
  moreover have "j < 32" using j lt by simp
  ultimately show "\<not> bit x j" by simp
qed


lemma cmpeq_epi8_commute: "cmpeq_epi8 a b = cmpeq_epi8 b a"
proof (rule nth_equalityI)
  fix k assume "k < length (cmpeq_epi8 a b)"
  then show "cmpeq_epi8 a b ! k = cmpeq_epi8 b a ! k" by (auto simp add: nth_cmpeq_epi8)
qed simp

lemma loadu_si_eq_Some_iff:
  "loadu_si t mem at = Some chunk \<longleftrightarrow> holds mem at chunk \<and> length chunk = vector_width t"
proof
  assume "loadu_si t mem at = Some chunk"
  then have eq: "bytes mem at (vector_width t) = map Some chunk"
    by (simp only: loadu_si_def those_eq_Some_iff)
  then have "length (bytes mem at (vector_width t)) = length (map Some chunk)" by (simp only:)
  then have len: "length chunk = vector_width t" by simp
  with eq show "holds mem at chunk \<and> length chunk = vector_width t" by (simp add: holds_def)
next
  assume "holds mem at chunk \<and> length chunk = vector_width t"
  then have "bytes mem at (vector_width t) = map Some chunk" by (auto simp add: holds_def)
  then show "loadu_si t mem at = Some chunk" by (simp only: loadu_si_def those_eq_Some_iff)
qed

lemma loadu_si_readable_holds:
  assumes "readable mem at (vector_width t)"
  shows "\<exists>chunk. loadu_si t mem at = Some chunk \<and> holds mem at chunk
           \<and> length chunk = vector_width t"
proof -
  from loadu_si_readable [OF assms] obtain chunk where "loadu_si t mem at = Some chunk" by blast
  then show ?thesis using loadu_si_eq_Some_iff [of t mem at chunk] by blast
qed

lemma load_si_readable_holds:
  assumes "readable mem at (vector_width t)" "at mod vector_width t = 0"
  shows "\<exists>chunk. load_si t mem at = Some chunk \<and> holds mem at chunk
           \<and> length chunk = vector_width t"
  using loadu_si_readable_holds [OF assms(1)] assms(2) by (simp add: load_si_def)

section \<open>The invariant of the vector search\<close>

lemma absent_empty [simp]: "absent P lo lo"
  by (auto simp add: absent_def)

lemma absent_mono: "absent P lo hi \<Longrightarrow> lo \<le> lo' \<Longrightarrow> hi' \<le> hi \<Longrightarrow> absent P lo' hi'"
  by (auto simp add: absent_def)

lemma absent_append: "absent P lo mid \<Longrightarrow> absent P mid hi \<Longrightarrow> absent P lo hi"
  unfolding absent_def by (metis not_le_imp_less)

lemma absent_leftmost: "absent P lo hi \<Longrightarrow> leftmost P lo hi null"
  by (rule leftmost_none) (auto simp add: absent_def)

lemma leftmost_extend:
  assumes ab: "absent P lo at" and lo: "lo \<le> at" and hi: "mid \<le> hi"
    and r: "at \<le> r" "r < mid" "P r" and below: "\<And>a. at \<le> a \<Longrightarrow> a < r \<Longrightarrow> \<not> P a"
  shows "leftmost P lo hi r"
proof (rule leftmost_found)
  fix a assume a: "lo \<le> a" "a < r"
  show "\<not> P a"
  proof (cases "a < at")
    case True
    then show ?thesis using ab a(1) unfolding absent_def by blast
  next
    case False
    then show ?thesis using below [of a] a(2) by simp
  qed
qed (use lo hi r in auto)

lemma bit_mask_is_char:
  assumes h: "holds mem at chunk" and w: "length chunk \<le> 32"
  shows "bit (movemask_epi8 (cmpeq_epi8 chunk (replicate (length chunk) c))) k \<longleftrightarrow>
         k < length chunk \<and> is_char mem c (at + k)"
proof -
  have "bit (movemask_epi8 (cmpeq_epi8 chunk (replicate (length chunk) c))) k \<longleftrightarrow>
        k < length chunk \<and> chunk ! k = replicate (length chunk) c ! k"
    by (rule bit_movemask_cmpeq) (use w in simp_all)
  also have "\<dots> \<longleftrightarrow> k < length chunk \<and> is_char mem c (at + k)"
  proof (cases "k < length chunk")
    case True
    then show ?thesis using holds_load8 [OF h True] by (auto simp add: is_char_def)
  next
    case False
    then show ?thesis by simp
  qed
  finally show ?thesis .
qed

lemma vector_step:
  assumes h: "holds mem at chunk" and w: "length chunk \<le> 32"
    and ab: "absent (is_char mem c) lo at" and lo: "lo \<le> at" and hi: "at + length chunk \<le> hi"
  defines "msk \<equiv> movemask_epi8 (cmpeq_epi8 chunk (replicate (length chunk) c))"
  shows "msk \<noteq> 0 \<Longrightarrow> leftmost (is_char mem c) lo hi (at + tzcnt_u32 msk)"
    and "msk \<noteq> 0 \<Longrightarrow> at + tzcnt_u32 msk \<noteq> null"
    and "msk = 0 \<Longrightarrow> absent (is_char mem c) lo (at + length chunk)"
proof -
  note bm = bit_mask_is_char [OF h w, of c, folded msk_def]
  {
    assume nz: "msk \<noteq> 0"
    from tzcnt_u32_first_bit(1) [OF nz] have tz: "tzcnt_u32 msk < length chunk"
      "is_char mem c (at + tzcnt_u32 msk)" by (simp_all add: bm)
    show "leftmost (is_char mem c) lo hi (at + tzcnt_u32 msk)"
    proof (rule leftmost_extend [OF ab lo hi])
      fix a assume a: "at \<le> a" "a < at + tzcnt_u32 msk"
      then have "a - at < tzcnt_u32 msk" by simp
      from tzcnt_u32_first_bit(2) [OF nz this] have "\<not> bit msk (a - at)" .
      moreover have "a - at < length chunk" using a tz(1) by simp
      ultimately have "\<not> is_char mem c (at + (a - at))" by (simp add: bm)
      then show "\<not> is_char mem c a" using a(1) by simp
    qed (use tz in auto)
    show "at + tzcnt_u32 msk \<noteq> null"
      using tz(2) by (auto simp add: is_char_def dest: load8_Some_nonnull)
  }
  {
    assume z: "msk = 0"
    have "absent (is_char mem c) at (at + length chunk)"
      unfolding absent_def
    proof (intro allI impI)
      fix a assume a: "at \<le> a \<and> a < at + length chunk"
      then have k: "a - at < length chunk" by auto
      have "\<not> bit msk (a - at)" using z by simp
      then have "\<not> is_char mem c (at + (a - at))" using k by (simp add: bm)
      then show "\<not> is_char mem c a" using a by simp
    qed
    with ab show "absent (is_char mem c) lo (at + length chunk)" by (rule absent_append)
  }
qed


lemma findCharacterSingleVectorUnaligned_step:
  assumes rd: "readable mem at (vector_width t)" and ab: "absent (is_char mem c) lo at"
    and lo: "lo \<le> at" and hi: "at + vector_width t \<le> hi"
  shows "\<exists>r. findCharacterSingleVectorUnaligned t mem at (set1_epi8 t c) = Some r
           \<and> (if r \<noteq> null then leftmost (is_char mem c) lo hi r
                else absent (is_char mem c) lo (at + vector_width t))"
proof -
  from loadu_si_readable_holds [OF rd] obtain chunk where
    ch: "loadu_si t mem at = Some chunk" "holds mem at chunk" "length chunk = vector_width t"
    by blast
  define msk where "msk = movemask_epi8 (cmpeq_epi8 chunk (replicate (length chunk) c))"
  have w: "length chunk \<le> 32" using ch(3) vector_width_le_32 [of t] by simp
  have hi': "at + length chunk \<le> hi" using hi ch(3) by simp
  note vs = vector_step [OF ch(2) w ab lo hi', folded msk_def]
  have res: "findCharacterSingleVectorUnaligned t mem at (set1_epi8 t c)
      = (if msk \<noteq> 0 then Some (at + tzcnt_u32 msk) else Some null)"
    using ch(1,3) by (simp add: findCharacterSingleVectorUnaligned_def set1_epi8_def Let_def msk_def)
  show ?thesis
  proof (cases "msk = 0")
    case True
    then show ?thesis using res vs(3) ch(3) by simp
  next
    case False
    then show ?thesis using res vs(1,2) by simp
  qed
qed

lemma findCharacterSingleVector_step:
  assumes rd: "readable mem at (vector_width t)" and al: "at mod vector_width t = 0"
    and ab: "absent (is_char mem c) lo at"
    and lo: "lo \<le> at" and hi: "at + vector_width t \<le> hi"
  shows "\<exists>r. findCharacterSingleVector t mem at (set1_epi8 t c) = Some r
           \<and> (if r \<noteq> null then leftmost (is_char mem c) lo hi r
                else absent (is_char mem c) lo (at + vector_width t))"
proof -
  have "findCharacterSingleVector t mem at (set1_epi8 t c)
      = findCharacterSingleVectorUnaligned t mem at (set1_epi8 t c)"
    using al by (simp add: findCharacterSingleVector_def findCharacterSingleVectorUnaligned_def
        load_si_def)
  then show ?thesis
    using findCharacterSingleVectorUnaligned_step [OF rd ab lo hi] by simp
qed

lemma findCharacter_remainder_leftmost:
  assumes rd: "readable mem lo (endp - lo)" and big: "lo + vector_width t \<le> endp"
    and i: "lo \<le> i" "i \<le> endp" "endp < i + vector_width t"
    and ab: "absent (is_char mem c) lo i"
  shows "\<exists>r. findCharacter_remainder t mem i endp (set1_epi8 t c) = Some r
           \<and> leftmost (is_char mem c) lo endp r"
proof (cases "i < endp")
  case True
  let ?at = "endp - vector_width t"
  have rd': "readable mem ?at (vector_width t)"
    using rd by (rule readable_sub) (use big in auto)
  have ab': "absent (is_char mem c) lo ?at"
    using ab by (rule absent_mono) (use i in auto)
  have lo': "lo \<le> ?at" using big by simp
  have hi': "?at + vector_width t \<le> endp" using big by simp
  from findCharacterSingleVectorUnaligned_step [OF rd' ab' lo' hi'] obtain r where
    r: "findCharacterSingleVectorUnaligned t mem ?at (set1_epi8 t c) = Some r"
       "if r \<noteq> null then leftmost (is_char mem c) lo endp r
        else absent (is_char mem c) lo (?at + vector_width t)" by blast
  have "leftmost (is_char mem c) lo endp r"
  proof (cases "r = null")
    case True
    then have "absent (is_char mem c) lo endp" using r(2) big by simp
    then show ?thesis using True by (simp add: absent_leftmost)
  next
    case False
    then show ?thesis using r(2) by simp
  qed
  moreover have "findCharacter_remainder t mem i endp (set1_epi8 t c) = Some r"
    using True i(3) r(1) by (simp add: findCharacter_remainder_def)
  ultimately show ?thesis by simp
next
  case False
  then have "i = endp" using i(2) by simp
  then have "leftmost (is_char mem c) lo endp null" using ab by (simp add: absent_leftmost)
  then show ?thesis using False by (simp add: findCharacter_remainder_def)
qed

lemma findCharacter_singleVector_loop_leftmost:
  assumes rd: "readable mem lo (endp - lo)" and big: "lo + vector_width t \<le> endp"
  shows "lo \<le> i \<Longrightarrow> i \<le> endp \<Longrightarrow> i mod vector_width t = 0 \<Longrightarrow>
    absent (is_char mem c) lo i \<Longrightarrow>
    \<exists>r. findCharacter_singleVector_loop t mem i endp (set1_epi8 t c) = Some r
       \<and> leftmost (is_char mem c) lo endp r"
proof (induction "endp - i" arbitrary: i rule: less_induct)
  case less
  show ?case
  proof (cases "i + vector_width t \<le> endp")
    case False
    then have "endp < i + vector_width t" by simp
    from findCharacter_remainder_leftmost [OF rd big less.prems(1,2) this less.prems(4)]
    show ?thesis using False by (subst findCharacter_singleVector_loop.simps) simp
  next
    case True
    have rd': "readable mem i (vector_width t)"
      using rd by (rule readable_sub) (use True less.prems(1) in auto)
    from findCharacterSingleVector_step [OF rd' less.prems(3,4,1) True] obtain r0 where
      r0: "findCharacterSingleVector t mem i (set1_epi8 t c) = Some r0"
          "if r0 \<noteq> null then leftmost (is_char mem c) lo endp r0
           else absent (is_char mem c) lo (i + vector_width t)" by blast
    show ?thesis
    proof (cases "r0 = null")
      case False
      then have "findCharacter_singleVector_loop t mem i endp (set1_epi8 t c) = Some r0"
        using True r0(1) by (subst findCharacter_singleVector_loop.simps) simp
      then show ?thesis using False r0(2) by simp
    next
      case null: True
      have "endp - (i + vector_width t) < endp - i"
        using True vector_width_pos [of t] by simp
      moreover have "(i + vector_width t) mod vector_width t = 0" using less.prems(3) by simp
      moreover have "absent (is_char mem c) lo (i + vector_width t)" using null r0(2) by simp
      ultimately obtain r where
        r: "findCharacter_singleVector_loop t mem (i + vector_width t) endp (set1_epi8 t c) = Some r"
           "leftmost (is_char mem c) lo endp r"
        using less.hyps [of "i + vector_width t"] less.prems(1) True by auto
      have "findCharacter_singleVector_loop t mem i endp (set1_epi8 t c) = Some r"
        using True r0(1) null r(1) by (subst findCharacter_singleVector_loop.simps) simp
      then show ?thesis using r(2) by simp
    qed
  qed
qed


lemma findCharacter_fourVectors_loop_leftmost:
  assumes rd: "readable mem lo (endp - lo)" and big: "lo + vector_width t \<le> endp"
  shows "lo \<le> i \<Longrightarrow> i \<le> endp \<Longrightarrow> i mod vector_width t = 0 \<Longrightarrow>
    absent (is_char mem c) lo i \<Longrightarrow>
    \<exists>r. findCharacter_fourVectors_loop t mem i endp (set1_epi8 t c) = Some r
       \<and> leftmost (is_char mem c) lo endp r"
proof (induction "endp - i" arbitrary: i rule: less_induct)
  case less
  let ?w = "vector_width t"
  let ?P = "is_char mem c"
  let ?vn1 = "set1_epi8 t c"
  show ?case
  proof (cases "i + 4 * ?w < endp")
    case False
    from findCharacter_singleVector_loop_leftmost [OF rd big less.prems]
    show ?thesis using False by (subst findCharacter_fourVectors_loop.simps) simp
  next
    case True
    have w32: "?w \<le> 32" by (rule vector_width_le_32)
    have rda: "readable mem i ?w"
      using rd by (rule readable_sub) (use True less.prems(1) in auto)
    have rdb: "readable mem (i + ?w) ?w"
      using rd by (rule readable_sub) (use True less.prems(1) in auto)
    have rdc: "readable mem (i + 2 * ?w) ?w"
      using rd by (rule readable_sub) (use True less.prems(1) in auto)
    have rdd: "readable mem (i + 3 * ?w) ?w"
      using rd by (rule readable_sub) (use True less.prems(1) in auto)
    have al: "i mod ?w = 0" "(i + ?w) mod ?w = 0" "(i + 2 * ?w) mod ?w = 0"
      "(i + 3 * ?w) mod ?w = 0" using less.prems(3) by simp_all
    from load_si_readable_holds [OF rda al(1)] obtain a where
      a: "load_si t mem i = Some a" "holds mem i a" "length a = ?w" by blast
    from load_si_readable_holds [OF rdb al(2)] obtain b where
      b: "load_si t mem (i + ?w) = Some b" "holds mem (i + ?w) b" "length b = ?w" by blast
    from load_si_readable_holds [OF rdc al(3)] obtain c' where
      c: "load_si t mem (i + 2 * ?w) = Some c'" "holds mem (i + 2 * ?w) c'" "length c' = ?w"
      by blast
    from load_si_readable_holds [OF rdd al(4)] obtain d where
      d: "load_si t mem (i + 3 * ?w) = Some d" "holds mem (i + 3 * ?w) d" "length d = ?w"
      by blast
    define ma where "ma = movemask_epi8 (cmpeq_epi8 a (replicate (length a) c))"
    define mb where "mb = movemask_epi8 (cmpeq_epi8 b (replicate (length b) c))"
    define mc where "mc = movemask_epi8 (cmpeq_epi8 c' (replicate (length c') c))"
    define md where "md = movemask_epi8 (cmpeq_epi8 d (replicate (length d) c))"
    have eqs: "movemask_epi8 (cmpeq_epi8 ?vn1 a) = ma" "movemask_epi8 (cmpeq_epi8 ?vn1 b) = mb"
      "movemask_epi8 (cmpeq_epi8 ?vn1 c') = mc" "movemask_epi8 (cmpeq_epi8 ?vn1 d) = md"
      using a(3) b(3) c(3) d(3)
      by (simp_all add: ma_def mb_def mc_def md_def set1_epi8_def
          cmpeq_epi8_commute [of "replicate (vector_width t) c"])
    have or3: "movemask_epi8 (or_si (or_si (cmpeq_epi8 ?vn1 a) (cmpeq_epi8 ?vn1 b))
                 (or_si (cmpeq_epi8 ?vn1 c') (cmpeq_epi8 ?vn1 d))) = 0
               \<longleftrightarrow> ma = 0 \<and> mb = 0 \<and> mc = 0 \<and> md = 0"
    proof -
      have lv: "length ?vn1 = ?w" by (simp add: set1_epi8_def)
      show ?thesis using a(3) b(3) c(3) d(3) by (simp add: movemask_or_eq_0 eqs lv)
    qed
    have unfold: "findCharacter_fourVectors_loop t mem i endp ?vn1 =
      (if \<not> (ma = 0 \<and> mb = 0 \<and> mc = 0 \<and> md = 0) then
         if ma \<noteq> 0 then Some (i + tzcnt_u32 ma)
         else if mb \<noteq> 0 then Some (i + ?w + tzcnt_u32 mb)
         else if mc \<noteq> 0 then Some (i + 2 * ?w + tzcnt_u32 mc)
         else if md \<noteq> 0 then Some (i + 3 * ?w + tzcnt_u32 md)
         else None
       else findCharacter_fourVectors_loop t mem (i + 4 * ?w) endp ?vn1)"
      by (subst findCharacter_fourVectors_loop.simps)
         (simp add: True a(1) b(1) c(1) d(1) Let_def eqs or3)
    have la: "length a \<le> 32" "length b \<le> 32" "length c' \<le> 32" "length d \<le> 32"
      using a(3) b(3) c(3) d(3) w32 by simp_all
    have hia: "i + length a \<le> endp" using True a(3) by simp
    note va = vector_step [OF a(2) la(1) less.prems(4,1) hia, of , folded ma_def]
    show ?thesis
    proof (cases "ma = 0")
      case False
      then show ?thesis using unfold va(1) by simp
    next
      case za: True
      have ab1: "absent ?P lo (i + ?w)" using va(3) [OF za] by (simp only: a(3))
      have lob: "lo \<le> i + ?w" using less.prems(1) by simp
      have hib: "i + ?w + length b \<le> endp" using True b(3) by simp
      note vb = vector_step [OF b(2) la(2) ab1 lob hib, folded mb_def]
      show ?thesis
      proof (cases "mb = 0")
        case False
        then show ?thesis using unfold za vb(1) by simp
      next
        case zb: True
        have e2: "i + ?w + ?w = i + 2 * ?w" by simp
        have ab2: "absent ?P lo (i + 2 * ?w)" using vb(3) [OF zb] by (simp only: b(3) e2)
        have loc: "lo \<le> i + 2 * ?w" using less.prems(1) by simp
        have hic: "i + 2 * ?w + length c' \<le> endp" using True c(3) by simp
        note vc = vector_step [OF c(2) la(3) ab2 loc hic, folded mc_def]
        show ?thesis
        proof (cases "mc = 0")
          case False
          then show ?thesis using unfold za zb vc(1) by simp
        next
          case zc: True
          have e3: "i + 2 * ?w + ?w = i + 3 * ?w" by simp
          have ab3: "absent ?P lo (i + 3 * ?w)" using vc(3) [OF zc] by (simp only: c(3) e3)
          have lod: "lo \<le> i + 3 * ?w" using less.prems(1) by simp
          have hid: "i + 3 * ?w + length d \<le> endp" using True d(3) by simp
          note vd = vector_step [OF d(2) la(4) ab3 lod hid, folded md_def]
          show ?thesis
          proof (cases "md = 0")
            case False
            then show ?thesis using unfold za zb zc vd(1) by simp
          next
            case zd: True
            have e4: "i + 3 * ?w + ?w = i + 4 * ?w" by simp
            have ab4: "absent ?P lo (i + 4 * ?w)" using vd(3) [OF zd] by (simp only: d(3) e4)
            have "endp - (i + 4 * ?w) < endp - i" using True vector_width_pos [of t] by simp
            moreover have "(i + 4 * ?w) mod ?w = 0" using less.prems(3) by simp
            ultimately obtain r where
              r: "findCharacter_fourVectors_loop t mem (i + 4 * ?w) endp ?vn1 = Some r"
                 "leftmost ?P lo endp r"
              using less.hyps [of "i + 4 * ?w"] less.prems(1) True ab4 by auto
            show ?thesis using unfold za zb zc zd r by simp
          qed
        qed
      qed
    qed
  qed
qed


section \<open>The vector implementations find the leftmost occurrence\<close>

lemma clear_low_bits_eq: "clear_low_bits k p = p div 2 ^ k * 2 ^ k"
  by (simp add: clear_low_bits_def push_bit_eq_mult drop_bit_eq_div)

lemma clear_low_bits_props:
  "clear_low_bits k p mod 2 ^ k = 0" "clear_low_bits k p \<le> p" "p < clear_low_bits k p + 2 ^ k"
proof -
  have pos: "(0::nat) < 2 ^ k" by simp
  show "clear_low_bits k p mod 2 ^ k = 0" by (simp add: clear_low_bits_eq)
  show "clear_low_bits k p \<le> p" by (simp add: clear_low_bits_eq)
  have "p = p div 2 ^ k * 2 ^ k + p mod 2 ^ k" by (rule div_mult_mod_eq [symmetric])
  moreover have "p mod 2 ^ k < 2 ^ k" using pos by (rule mod_less_divisor)
  ultimately show "p < clear_low_bits k p + 2 ^ k" unfolding clear_low_bits_eq by linarith
qed

text \<open>
  On a 64-bit \<open>std::uintptr_t\<close> the operation \<open>p & ~0xf\<close> is \<open>clear_low_bits 4\<close>, and
  \<open>p & ~0x1f\<close> is \<open>clear_low_bits 5\<close>.
\<close>

lemma clear_low_bits_and_not_mask:
  assumes "p < 2 ^ 64"
  shows "unat ((word_of_nat p :: 64 word) AND NOT (mask k)) = clear_low_bits k p"
proof -
  have "(word_of_nat p :: 64 word) AND NOT (mask k) = word_of_nat (push_bit k (drop_bit k p))"
    by (rule bit_word_eqI) (auto simp add: bit_simps)
  moreover have "push_bit k (drop_bit k p) \<le> p"
    using clear_low_bits_props(2) [where k = k and p = p] by (simp add: clear_low_bits_def)
  then have "push_bit k (drop_bit k p) < 2 ^ 64" using assms by simp
  ultimately show ?thesis by (simp add: clear_low_bits_def unat_of_nat)
qed

lemma clear_low_bits_uintptr:
  assumes "p < 2 ^ 64"
  shows "unat ((word_of_nat p :: 64 word) AND NOT 0xf) = clear_low_bits 4 p"
    and "unat ((word_of_nat p :: 64 word) AND NOT 0x1f) = clear_low_bits 5 p"
proof -
  have e: "(0xf :: 64 word) = mask 4" "(0x1f :: 64 word) = mask 5"
    by (simp_all add: mask_eq_exp_minus_1)
  show "unat ((word_of_nat p :: 64 word) AND NOT 0xf) = clear_low_bits 4 p"
    using clear_low_bits_and_not_mask [OF assms, of 4] by (simp only: e)
  show "unat ((word_of_nat p :: 64 word) AND NOT 0x1f) = clear_low_bits 5 p"
    using clear_low_bits_and_not_mask [OF assms, of 5] by (simp only: e)
qed

lemma vector_kernel_leftmost:
  assumes rd: "readable mem data sz" and big: "vector_width t \<le> sz"
    and w: "vector_width t = 2 ^ k"
  shows "\<exists>r. (case findCharacterSingleVectorUnaligned t mem data (set1_epi8 t c) of
               None \<Rightarrow> None
             | Some found \<Rightarrow>
                 if found \<noteq> null then Some found
                 else
                   let i = clear_low_bits k (data + vector_width t) in
                   if \<not> (i \<ge> data \<and> i mod vector_width t = 0) then None
                   else findCharacter_fourVectors_loop t mem i (data + sz) (set1_epi8 t c))
              = Some r
           \<and> leftmost (is_char mem c) data (data + sz) r"
proof -
  let ?w = "vector_width t"
  let ?P = "is_char mem c"
  let ?i = "clear_low_bits k (data + ?w)"
  have rd0: "readable mem data ?w" using rd by (rule readable_sub) (use big in auto)
  have hi0: "data + ?w \<le> data + sz" using big by simp
  from findCharacterSingleVectorUnaligned_step [OF rd0 absent_empty order_refl hi0] obtain r0
    where r0: "findCharacterSingleVectorUnaligned t mem data (set1_epi8 t c) = Some r0"
      "if r0 \<noteq> null then leftmost ?P data (data + sz) r0 else absent ?P data (data + ?w)"
    by blast
  show ?thesis
  proof (cases "r0 = null")
    case False
    then show ?thesis using r0 by simp
  next
    case True
    note p = clear_low_bits_props [where k = k and p = "data + ?w", folded w]
    have i1: "data \<le> ?i" using p(3) by simp
    have i2: "?i \<le> data + sz" using p(2) big by simp
    have ab: "absent ?P data ?i"
      using True r0(2) p(2) by (auto intro: absent_mono)
    have rd': "readable mem data (data + sz - data)" using rd by simp
    have big': "data + ?w \<le> data + sz" using big by simp
    from findCharacter_fourVectors_loop_leftmost [OF rd' big' i1 i2 p(1) ab] obtain r where
      "findCharacter_fourVectors_loop t mem ?i (data + sz) (set1_epi8 t c) = Some r"
      "leftmost ?P data (data + sz) r" by blast
    then show ?thesis using r0(1) True i1 p(1) by (simp add: Let_def)
  qed
qed

lemma Sse2_Bmi1_leftmost:
  assumes rd: "readable mem data sz"
  shows "\<exists>r. stringFindCharacterImplementation_Sse2_Bmi1 mem data sz c = Some r
           \<and> leftmost (is_char mem c) data (data + sz) r"
proof (cases "sz < 16")
  case True
  have "readable mem data (data + sz - data)" using rd by simp
  from findCharacter_scalar_loop_leftmost [OF _ this, of c]
  show ?thesis using True by (simp add: stringFindCharacterImplementation_Sse2_Bmi1_def)
next
  case False
  then have big: "vector_width Sse2T \<le> sz" by simp
  have w: "vector_width Sse2T = 2 ^ 4" by simp
  from vector_kernel_leftmost [OF rd big w, of c, unfolded vector_width.simps]
  show ?thesis using False by (simp add: stringFindCharacterImplementation_Sse2_Bmi1_def Let_def)
qed

lemma Avx2_Bmi1_leftmost:
  assumes rd: "readable mem data sz"
  shows "\<exists>r. stringFindCharacterImplementation_Avx2_Bmi1 mem data sz c = Some r
           \<and> leftmost (is_char mem c) data (data + sz) r"
proof (cases "sz < 32")
  case True
  from Sse2_Bmi1_leftmost [OF rd, of c]
  show ?thesis using True by (simp add: stringFindCharacterImplementation_Avx2_Bmi1_def)
next
  case False
  then have big: "vector_width Avx2T \<le> sz" by simp
  have w: "vector_width Avx2T = 2 ^ 5" by simp
  from vector_kernel_leftmost [OF rd big w, of c, unfolded vector_width.simps]
  show ?thesis using False by (simp add: stringFindCharacterImplementation_Avx2_Bmi1_def Let_def)
qed

lemma Scalar_leftmost:
  assumes rd: "readable mem data sz"
  shows "\<exists>r. stringFindCharacterImplementation_Scalar mem data sz c = Some r
           \<and> leftmost (is_char mem c) data (data + sz) r"
  using memchr_leftmost [OF rd, of c] by (simp add: stringFindCharacterImplementation_Scalar_def)

lemma stringFindCharacter_leftmost:
  assumes rd: "readable mem data sz"
  shows "\<exists>r. stringFindCharacter tier mem data sz c = Some r
           \<and> leftmost (is_char mem c) data (data + sz) r"
  by (cases tier) (simp_all add: Scalar_leftmost Sse2_Bmi1_leftmost Avx2_Bmi1_leftmost rd)

lemma tiers_agree:
  assumes rd: "readable mem data sz"
  shows "stringFindCharacter tier mem data sz c = stringFindCharacter tier' mem data sz c"
proof -
  from stringFindCharacter_leftmost [OF rd] obtain r where
    r: "stringFindCharacter tier mem data sz c = Some r"
       "leftmost (is_char mem c) data (data + sz) r" by blast
  from stringFindCharacter_leftmost [OF rd] obtain r' where
    r': "stringFindCharacter tier' mem data sz c = Some r'"
        "leftmost (is_char mem c) data (data + sz) r'" by blast
  from leftmost_unique [OF r(2) r'(2)] r(1) r'(1) show ?thesis by simp
qed

section \<open>The tiers of stringFindCharacter\<close>

lemma leftmost_cong:
  assumes eq: "\<And>a. lo \<le> a \<Longrightarrow> a < hi \<Longrightarrow> P a = Q a" and l: "leftmost P lo hi r"
  shows "leftmost Q lo hi r"
proof (cases "\<exists>a. lo \<le> a \<and> a < hi \<and> P a")
  case True
  note r = leftmost_foundD [OF l True]
  show ?thesis
  proof (rule leftmost_found)
    show "Q r" using r(1,2,3) eq [of r] by simp
    fix a assume a: "lo \<le> a" "a < r"
    then have "\<not> P a" by (rule r(4))
    then show "\<not> Q a" using eq [of a] a r(2) by simp
  qed (use r in auto)
next
  case False
  then have "r = null" by (rule leftmost_noneD [OF l])
  moreover have "\<And>a. lo \<le> a \<Longrightarrow> a < hi \<Longrightarrow> \<not> Q a" using False eq by blast
  ultimately show ?thesis by (simp add: leftmost_none)
qed

lemma load8_only_buffer:
  "load8 (only_buffer mem p n) a = (if p \<le> a \<and> a < p + n then load8 mem a else None)"
  by (simp add: load8_def only_buffer_def)

lemma readable_only_buffer: "readable mem p n \<Longrightarrow> readable (only_buffer mem p n) p n"
  by (simp add: readable_def load8_only_buffer)

lemma loadu_si_only_buffer:
  assumes "n < vector_width t"
  shows "loadu_si t (only_buffer mem p n) at = None"
proof (cases "loadu_si t (only_buffer mem p n) at")
  case None
  then show ?thesis .
next
  case (Some chunk)
  then have h: "holds (only_buffer mem p n) at chunk" and len: "length chunk = vector_width t"
    by (simp_all add: loadu_si_eq_Some_iff)
  have pos: "0 < length chunk" using len vector_width_pos [of t] by simp
  from holds_load8 [OF h pos] have "p \<le> at"
    by (simp add: load8_only_buffer split: if_splits)
  moreover have "length chunk - 1 < length chunk" using pos by simp
  from holds_load8 [OF h this] have "at + (length chunk - 1) < p + n"
    by (simp add: load8_only_buffer split: if_splits)
  ultimately have "length chunk \<le> n" using pos by linarith
  then show ?thesis using assms len by simp
qed

lemma load_si_only_buffer:
  assumes "n < vector_width t"
  shows "load_si t (only_buffer mem p n) at = None"
  using loadu_si_only_buffer [OF assms] by (simp add: load_si_def)

lemma Sse2_Bmi1_only_buffer:
  assumes rd: "readable mem data sz"
  shows "stringFindCharacterImplementation_Sse2_Bmi1 (only_buffer mem data sz) data sz c
       = stringFindCharacterImplementation_Sse2_Bmi1 mem data sz c"
proof -
  let ?M = "only_buffer mem data sz"
  from Sse2_Bmi1_leftmost [OF readable_only_buffer [OF rd]] obtain r where
    r: "stringFindCharacterImplementation_Sse2_Bmi1 ?M data sz c = Some r"
       "leftmost (is_char ?M c) data (data + sz) r" by blast
  from Sse2_Bmi1_leftmost [OF rd] obtain r' where
    r': "stringFindCharacterImplementation_Sse2_Bmi1 mem data sz c = Some r'"
        "leftmost (is_char mem c) data (data + sz) r'" by blast
  have "leftmost (is_char mem c) data (data + sz) r"
    using _ r(2) by (rule leftmost_cong) (simp add: is_char_def load8_only_buffer)
  from leftmost_unique [OF this r'(2)] r(1) r'(1) show ?thesis by simp
qed

text \<open>
  Claim C1. For every readable buffer \<open>(data, size)\<close> and every byte, the 128-bit
  implementation returns what the scalar reference (\<open>memchr\<close>) returns: the pointer to
  the leftmost occurrence of the byte in the buffer, or null when the byte does not occur.
  For \<open>size < 16\<close> its result is that of the byte-by-byte loop, and it issues no vector
  load: in the memory where only the buffer is mapped every vector load, aligned or not,
  faults, yet the implementation returns the same result there.
\<close>

theorem Sse2_Bmi1_equals_Scalar:
  assumes "readable mem data sz"
  shows "stringFindCharacterImplementation_Sse2_Bmi1 mem data sz c
           = stringFindCharacterImplementation_Scalar mem data sz c
       \<and> (\<exists>r. stringFindCharacterImplementation_Sse2_Bmi1 mem data sz c = Some r
              \<and> leftmost (is_char mem c) data (data + sz) r)
       \<and> (sz < 16 \<longrightarrow>
             stringFindCharacterImplementation_Sse2_Bmi1 mem data sz c
               = findCharacter_scalar_loop mem data (data + sz) c
           \<and> (\<forall>t at. loadu_si t (only_buffer mem data sz) at = None
                    \<and> load_si t (only_buffer mem data sz) at = None)
           \<and> stringFindCharacterImplementation_Sse2_Bmi1 (only_buffer mem data sz) data sz c
               = stringFindCharacterImplementation_Sse2_Bmi1 mem data sz c)"
proof -
  have a: "stringFindCharacterImplementation_Sse2_Bmi1 mem data sz c
      = stringFindCharacterImplementation_Scalar mem data sz c"
    using tiers_agree [OF assms, of Cpu_Sse2_Bmi1 c Cpu_Scalar] by simp
  have b: "sz < 16 \<Longrightarrow> stringFindCharacterImplementation_Sse2_Bmi1 mem data sz c
      = findCharacter_scalar_loop mem data (data + sz) c"
    by (simp add: stringFindCharacterImplementation_Sse2_Bmi1_def)
  have c: "sz < 16 \<Longrightarrow> loadu_si t (only_buffer mem data sz) at = None
      \<and> load_si t (only_buffer mem data sz) at = None" for t at
  proof -
    assume "sz < 16"
    then have "sz < vector_width t" by (cases t) simp_all
    then show ?thesis by (simp add: loadu_si_only_buffer load_si_only_buffer)
  qed
  show ?thesis
    using a b c Sse2_Bmi1_leftmost [OF assms, of c] Sse2_Bmi1_only_buffer [OF assms, of c]
    by blast
qed

lemma readable_straddle: "readable straddle 19 17" "readable straddle 19 3"
  unfolding straddle_def by (rule readable_place; simp add: bytes_of_def)+

theorem Sse2_Bmi1_equals_Scalar_witness:
  "readable straddle 19 17
   \<and> stringFindCharacterImplementation_Scalar straddle 19 17 88 = Some 35
   \<and> stringFindCharacterImplementation_Sse2_Bmi1 straddle 19 17 88 = Some 35
   \<and> stringFindCharacterImplementation_Sse2_Bmi1 straddle 19 3 88 = Some null
   \<and> stringFindCharacterImplementation_Sse2_Bmi1 (only_buffer straddle 19 3) 19 3 88 = Some null
   \<and> loadu_si Sse2T (only_buffer straddle 19 3) 19 = None"
proof -
  have v: "stringFindCharacterImplementation_Scalar straddle 19 17 88 = Some 35"
    "stringFindCharacterImplementation_Scalar straddle 19 3 88 = Some null"
    unfolding straddle_def by code_simp+
  show ?thesis
    using Sse2_Bmi1_equals_Scalar [OF readable_straddle(1), of 88]
      Sse2_Bmi1_equals_Scalar [OF readable_straddle(2), of 88] v readable_straddle(1)
    by simp
qed

text \<open>
  Claim C2. For \<open>size < 32\<close> the 256-bit implementation returns exactly what the
  128-bit implementation returns on the same input, whatever the memory, because it
  calls it; and for every readable buffer, of any size, it returns what the scalar
  reference returns.
\<close>

theorem Avx2_Bmi1_delegates_and_equals_Scalar:
  "(sz < 32 \<longrightarrow> stringFindCharacterImplementation_Avx2_Bmi1 mem data sz c
                  = stringFindCharacterImplementation_Sse2_Bmi1 mem data sz c)
   \<and> (readable mem data sz \<longrightarrow>
        stringFindCharacterImplementation_Avx2_Bmi1 mem data sz c
          = stringFindCharacterImplementation_Scalar mem data sz c)"
proof -
  have "stringFindCharacterImplementation_Avx2_Bmi1 mem data sz c
      = stringFindCharacterImplementation_Scalar mem data sz c" if "readable mem data sz"
    using tiers_agree [OF that, of Cpu_Avx2_Bmi1 c Cpu_Scalar] by simp
  then show ?thesis by (simp add: stringFindCharacterImplementation_Avx2_Bmi1_def)
qed

lemma readable_long_buffer: "readable long_buffer 19 40"
  unfolding long_buffer_def by (rule readable_place) simp_all

theorem Avx2_Bmi1_delegates_and_equals_Scalar_witness:
  "readable straddle 19 17 \<and> readable long_buffer 19 40
   \<and> stringFindCharacterImplementation_Avx2_Bmi1 straddle 19 17 88
        = stringFindCharacterImplementation_Sse2_Bmi1 straddle 19 17 88
   \<and> stringFindCharacterImplementation_Avx2_Bmi1 straddle 19 17 88 = Some 35
   \<and> stringFindCharacterImplementation_Avx2_Bmi1 long_buffer 19 40 8 = Some 57"
proof -
  have v: "stringFindCharacterImplementation_Scalar straddle 19 17 88 = Some 35"
    unfolding straddle_def by code_simp
  have v': "stringFindCharacterImplementation_Scalar long_buffer 19 40 8 = Some 57"
    unfolding long_buffer_def by code_simp
  show ?thesis
    using Avx2_Bmi1_delegates_and_equals_Scalar [of 17 straddle 19 88]
      Avx2_Bmi1_delegates_and_equals_Scalar [of 40 long_buffer 19 8]
      v v' readable_straddle(1) readable_long_buffer
    by auto
qed

section \<open>Zero-length buffers, the 17-byte scenario, and bounds\<close>

lemma stringFindCharacter_zero: "stringFindCharacter tier mem data 0 c = Some null"
  by (cases tier)
     (simp_all add: stringFindCharacterImplementation_Scalar_def
        stringFindCharacterImplementation_Sse2_Bmi1_def
        stringFindCharacterImplementation_Avx2_Bmi1_def
        findCharacter_scalar_loop.simps [of mem data data])

lemma stringFindLastCharacter_zero: "stringFindLastCharacter mem data 0 c = Some null"
proof (cases "data = null")
  case True
  then show ?thesis by (simp add: stringFindLastCharacter_def)
next
  case False
  then have "\<not> data \<le> data - 1" by simp
  then have "stringFindLastCharacter_loop mem data (data - 1) c = Some null"
    by (subst stringFindLastCharacter_loop.simps) simp
  then show ?thesis using False by (simp add: stringFindLastCharacter_def)
qed

lemma any_of_set_zero:
  "stringFindAny mem data 0 q m = Some null" "stringFindLastAny mem data 0 q m = Some null"
  "stringFindNotAny mem data 0 q m = Some null" "stringFindLastNotAny mem data 0 q m = Some null"
  by (simp_all add: stringFindAny_def stringFindLastAny_def stringFindNotAny_def
      stringFindLastNotAny_def stringFindAny_loop.simps [of mem data data]
      stringFindLastAny_loop.simps [of mem data data]
      stringFindNotAny_loop.simps [of mem data data]
      stringFindLastNotAny_loop.simps [of mem data data])

text \<open>
  Claim C5. With \<open>size = 0\<close> each of \<open>stringFindCharacter\<close> (at every tier),
  \<open>stringFindLastCharacter\<close>, \<open>stringFindAny\<close>, \<open>stringFindLastAny\<close>,
  \<open>stringFindNotAny\<close> and \<open>stringFindLastNotAny\<close> returns the not-found result, for
  every \<open>data\<close> pointer (null included) and every character set (the empty one
  included). None reads a byte: the statement holds for every memory, also the one in
  which no address can be read.
\<close>

theorem zero_size_not_found:
  "stringFindCharacter tier mem data 0 c = Some null
   \<and> stringFindLastCharacter mem data 0 c = Some null
   \<and> stringFindAny mem data 0 characters characterCount = Some null
   \<and> stringFindLastAny mem data 0 characters characterCount = Some null
   \<and> stringFindNotAny mem data 0 characters characterCount = Some null
   \<and> stringFindLastNotAny mem data 0 characters characterCount = Some null"
  by (simp add: stringFindCharacter_zero stringFindLastCharacter_zero any_of_set_zero)

theorem zero_size_not_found_witness:
  "stringFindCharacter Cpu_Avx2_Bmi1 (\<lambda>a. None) null 0 88 = Some null
   \<and> stringFindLastCharacter (\<lambda>a. None) null 0 88 = Some null
   \<and> stringFindAny (\<lambda>a. None) null 0 null 0 = Some null
   \<and> stringFindLastAny (\<lambda>a. None) null 0 null 0 = Some null
   \<and> stringFindNotAny (\<lambda>a. None) null 0 null 0 = Some null
   \<and> stringFindLastNotAny (\<lambda>a. None) null 0 null 0 = Some null"
  using zero_size_not_found [of Cpu_Avx2_Bmi1 "\<lambda>a. None" null 88 null 0] by simp

lemma straddle_bytes: "bytes_of ''aaaaaaaaaaaaaaaaX'' = replicate 16 97 @ [88]"
  by (simp add: bytes_of_def numeral_eq_Suc)

text \<open>
  Claim C7. Whenever memory holds the 17 bytes \<open>aaaaaaaaaaaaaaaaX\<close> at \<open>data\<close>, at any
  address and so with any alignment: the forward search for \<open>X\<close> returns \<open>data + 16\<close>
  and the search for \<open>Z\<close> returns not-found at every tier (scalar, SSE2, AVX2), and the
  backward search returns \<open>data + 15\<close> for \<open>a\<close> and not-found for \<open>Z\<close>.
\<close>

theorem straddling_17_bytes:
  assumes "holds mem data (bytes_of ''aaaaaaaaaaaaaaaaX'')"
  shows "stringFindCharacter tier mem data 17 (of_char CHR ''X'') = Some (data + 16)
       \<and> stringFindLastCharacter mem data 17 (of_char CHR ''a'') = Some (data + 15)
       \<and> stringFindCharacter tier mem data 17 (of_char CHR ''Z'') = Some null
       \<and> stringFindLastCharacter mem data 17 (of_char CHR ''Z'') = Some null"
proof -
  let ?bs = "replicate 16 (97 :: byte) @ [88]"
  have h: "holds mem data ?bs" using assms by (simp only: straddle_bytes)
  have len: "length ?bs = 17" by simp
  have rd: "readable mem data 17" using holds_readable [OF h] by (simp only: len)
  have la: "load8 mem (data + k) = Some 97" if "k < 16" for k
    using holds_load8 [OF h, of k] that by (simp add: nth_append)
  have lx: "load8 mem (data + 16) = Some 88"
    using holds_load8 [OF h, of 16] by (simp add: nth_append)
  have at: "load8 mem a = Some 97" if "data \<le> a" "a < data + 16" for a
    using la [of "a - data"] that by simp
  have chars: "of_char CHR ''X'' = (88 :: byte)" "of_char CHR ''a'' = (97 :: byte)"
    "of_char CHR ''Z'' = (90 :: byte)" by simp_all
  have first_X: "leftmost (is_char mem 88) data (data + 17) (data + 16)"
    by (rule leftmost_found) (use lx at in \<open>auto simp add: is_char_def\<close>)
  have no_Z: "\<not> is_char mem 90 a" if "data \<le> a" "a < data + 17" for a
  proof (cases "a < data + 16")
    case True
    then show ?thesis using at [OF that(1)] by (simp add: is_char_def)
  next
    case False
    then have "a = data + 16" using that(2) by simp
    then show ?thesis using lx by (simp add: is_char_def)
  qed
  have none_Z: "leftmost (is_char mem 90) data (data + 17) null"
    by (rule leftmost_none) (rule no_Z)
  have none_Z': "rightmost (is_char mem 90) data (data + 17) null"
    by (rule rightmost_none) (rule no_Z)
  have "is_char mem 97 (data + 15)" using la [of 15] by (simp add: is_char_def)
  moreover have "\<not> is_char mem 97 (data + 16)" using lx by (simp add: is_char_def)
  ultimately have last_a: "rightmost (is_char mem 97) data (data + 17) (data + 15)"
    by (intro rightmost_found) (auto simp add: less_Suc_eq numeral_eq_Suc dest: Suc_leI)
  from stringFindCharacter_leftmost [OF rd, of tier 88] obtain r1 where
    r1: "stringFindCharacter tier mem data 17 88 = Some r1"
        "leftmost (is_char mem 88) data (data + 17) r1" by blast
  from stringFindCharacter_leftmost [OF rd, of tier 90] obtain r2 where
    r2: "stringFindCharacter tier mem data 17 90 = Some r2"
        "leftmost (is_char mem 90) data (data + 17) r2" by blast
  from stringFindLastCharacter_rightmost [OF rd, of 97] obtain r3 where
    r3: "stringFindLastCharacter mem data 17 97 = Some r3"
        "rightmost (is_char mem 97) data (data + 17) r3" by blast
  from stringFindLastCharacter_rightmost [OF rd, of 90] obtain r4 where
    r4: "stringFindLastCharacter mem data 17 90 = Some r4"
        "rightmost (is_char mem 90) data (data + 17) r4" by blast
  show ?thesis
    unfolding chars
    using r1(1) r2(1) r3(1) r4(1) leftmost_unique [OF r1(2) first_X]
      leftmost_unique [OF r2(2) none_Z] rightmost_unique [OF r3(2) last_a]
      rightmost_unique [OF r4(2) none_Z']
    by simp
qed


lemma holds_place: "base \<noteq> null \<Longrightarrow> holds (place base bs) base bs"
  unfolding holds_def
  by (rule nth_equalityI) (simp_all add: load8_def place_def)

theorem straddling_17_bytes_witness:
  "holds straddle 19 (bytes_of ''aaaaaaaaaaaaaaaaX'')
   \<and> stringFindCharacter Cpu_Scalar straddle 19 17 88 = Some 35
   \<and> stringFindCharacter Cpu_Sse2_Bmi1 straddle 19 17 88 = Some 35
   \<and> stringFindCharacter Cpu_Avx2_Bmi1 straddle 19 17 88 = Some 35
   \<and> stringFindLastCharacter straddle 19 17 97 = Some 34
   \<and> stringFindCharacter Cpu_Scalar straddle 19 17 90 = Some null
   \<and> stringFindCharacter Cpu_Sse2_Bmi1 straddle 19 17 90 = Some null
   \<and> stringFindCharacter Cpu_Avx2_Bmi1 straddle 19 17 90 = Some null"
proof -
  have h: "holds straddle 19 (bytes_of ''aaaaaaaaaaaaaaaaX'')"
    unfolding straddle_def by (rule holds_place) simp
  show ?thesis
    using straddling_17_bytes [OF h, of Cpu_Scalar] straddling_17_bytes [OF h, of Cpu_Sse2_Bmi1]
      straddling_17_bytes [OF h, of Cpu_Avx2_Bmi1] h
    by simp
qed

text \<open>
  The vector kernels evaluated on concrete buffers: the 17-byte buffer, a 91-byte buffer
  on which the 128-bit kernel goes through its four-vector loop, and the 40-byte buffer
  on which the 256-bit kernel finishes with the unaligned vector that ends at \<open>end\<close>.
\<close>

lemma Sse2_Bmi1_straddle_evaluated:
  "stringFindCharacterImplementation_Sse2_Bmi1 straddle 19 17 88 = Some 35"
  unfolding straddle_def by code_simp

lemma Sse2_Bmi1_four_vectors_evaluated:
  "stringFindCharacterImplementation_Sse2_Bmi1 (place 19 (replicate 90 1 @ [7])) 19 91 7
     = Some 109"
  by code_simp

lemma Avx2_Bmi1_long_buffer_evaluated:
  "stringFindCharacterImplementation_Avx2_Bmi1 long_buffer 19 40 8 = Some 57"
  unfolding long_buffer_def by code_simp

lemma leftmost_result:
  assumes l: "leftmost P lo hi r" and nn: "lo < hi \<Longrightarrow> lo \<noteq> null"
  shows "(r = null \<or> lo \<le> r \<and> r < hi) \<and> (r = null \<longleftrightarrow> absent P lo hi)"
proof (cases "\<exists>a. lo \<le> a \<and> a < hi \<and> P a")
  case True
  note r = leftmost_foundD [OF l True]
  have "lo < hi" using r(1,2) by simp
  then have "r \<noteq> null" using nn r(1) by simp
  moreover have "\<not> absent P lo hi" using True by (simp add: absent_def)
  ultimately show ?thesis using r(1,2) by simp
next
  case False
  then have "r = null" by (rule leftmost_noneD [OF l])
  moreover have "absent P lo hi" using False by (simp add: absent_def)
  ultimately show ?thesis by simp
qed

lemma rightmost_result:
  assumes l: "rightmost P lo hi r" and nn: "lo < hi \<Longrightarrow> lo \<noteq> null"
  shows "(r = null \<or> lo \<le> r \<and> r < hi) \<and> (r = null \<longleftrightarrow> absent P lo hi)"
proof (cases "\<exists>a. lo \<le> a \<and> a < hi \<and> P a")
  case True
  note r = rightmost_foundD [OF l True]
  have "lo < hi" using r(1,2) by simp
  then have "r \<noteq> null" using nn r(1) by simp
  moreover have "\<not> absent P lo hi" using True by (simp add: absent_def)
  ultimately show ?thesis using r(1,2) by simp
next
  case False
  then have "r = null" by (rule rightmost_noneD [OF l])
  moreover have "absent P lo hi" using False by (simp add: absent_def)
  ultimately show ?thesis by simp
qed

lemma leftmost_in_bounds:
  assumes "\<exists>r. f = Some r \<and> leftmost P lo hi r" "lo < hi \<Longrightarrow> lo \<noteq> null"
  shows "\<exists>r. f = Some r \<and> (r = null \<or> lo \<le> r \<and> r < hi) \<and> (r = null \<longleftrightarrow> absent P lo hi)"
proof -
  from assms(1) obtain r where r: "f = Some r" "leftmost P lo hi r" by blast
  from leftmost_result [OF r(2) assms(2)] r(1) show ?thesis by blast
qed

lemma rightmost_in_bounds:
  assumes "\<exists>r. f = Some r \<and> rightmost P lo hi r" "lo < hi \<Longrightarrow> lo \<noteq> null"
  shows "\<exists>r. f = Some r \<and> (r = null \<or> lo \<le> r \<and> r < hi) \<and> (r = null \<longleftrightarrow> absent P lo hi)"
proof -
  from assms(1) obtain r where r: "f = Some r" "rightmost P lo hi r" by blast
  from rightmost_result [OF r(2) assms(2)] r(1) show ?thesis by blast
qed

lemma substring_in_bounds:
  assumes "\<exists>r. f = Some r \<and> (r = null \<or> data \<le> r \<and> r < data + sz - m + 1)
              \<and> (r = null \<longleftrightarrow> A)" "m \<le> sz"
  shows "\<exists>r. f = Some r \<and> (r = null \<or> data \<le> r \<and> r + m \<le> data + sz)
              \<and> (m \<le> sz \<longrightarrow> (r = null \<longleftrightarrow> A))"
proof -
  from assms(1) obtain r where r: "f = Some r" "r = null \<or> data \<le> r \<and> r < data + sz - m + 1"
    "r = null \<longleftrightarrow> A" by blast
  have "r = null \<or> data \<le> r \<and> r + m \<le> data + sz" using r(2) assms(2) by auto
  then show ?thesis using r(1,3) by blast
qed

text \<open>
  Claim C10. For a readable buffer \<open>(data, size)\<close> and a readable character set or
  needle, every search returns either null or a pointer into the buffer: an address in
  \<open>[data, data + size)\<close> for the byte and any-of-set searches (at every tier), and for
  the substring searches with a non-empty needle an address \<open>r\<close> with
  \<open>data \<le> r\<close> and \<open>r + substringSize \<le> data + size\<close>. Null is returned exactly when
  there is no match, so it stands for not-found and for nothing else.
\<close>

theorem results_in_bounds:
  assumes rd: "readable mem data sz" and rq: "readable mem q m"
  shows "(\<exists>r. stringFindCharacter tier mem data sz c = Some r
            \<and> (r = null \<or> data \<le> r \<and> r < data + sz)
            \<and> (r = null \<longleftrightarrow> absent (is_char mem c) data (data + sz)))
       \<and> (\<exists>r. stringFindLastCharacter mem data sz c = Some r
            \<and> (r = null \<or> data \<le> r \<and> r < data + sz)
            \<and> (r = null \<longleftrightarrow> absent (is_char mem c) data (data + sz)))
       \<and> (\<exists>r. stringFindAny mem data sz q m = Some r
            \<and> (r = null \<or> data \<le> r \<and> r < data + sz)
            \<and> (r = null \<longleftrightarrow> absent (in_set mem q m) data (data + sz)))
       \<and> (\<exists>r. stringFindLastAny mem data sz q m = Some r
            \<and> (r = null \<or> data \<le> r \<and> r < data + sz)
            \<and> (r = null \<longleftrightarrow> absent (in_set mem q m) data (data + sz)))
       \<and> (\<exists>r. stringFindNotAny mem data sz q m = Some r
            \<and> (r = null \<or> data \<le> r \<and> r < data + sz)
            \<and> (r = null \<longleftrightarrow> absent (\<lambda>a. \<not> in_set mem q m a) data (data + sz)))
       \<and> (\<exists>r. stringFindLastNotAny mem data sz q m = Some r
            \<and> (r = null \<or> data \<le> r \<and> r < data + sz)
            \<and> (r = null \<longleftrightarrow> absent (\<lambda>a. \<not> in_set mem q m a) data (data + sz)))
       \<and> (0 < m \<longrightarrow>
            (\<exists>r. stringFindString mem data sz q m = Some r
               \<and> (r = null \<or> data \<le> r \<and> r + m \<le> data + sz)
               \<and> (m \<le> sz \<longrightarrow>
                    (r = null \<longleftrightarrow> absent (matches_at mem q m) data (data + sz - m + 1))))
          \<and> (\<exists>r. stringFindLastString mem data sz q m = Some r
               \<and> (r = null \<or> data \<le> r \<and> r + m \<le> data + sz)
               \<and> (m \<le> sz \<longrightarrow>
                    (r = null \<longleftrightarrow> absent (matches_at mem q m) data (data + sz - m + 1)))))"
proof -
  have nn: "data < data + sz \<Longrightarrow> data \<noteq> null" using readable_nonnull [OF rd] by simp
  have c1: "\<exists>r. stringFindCharacter tier mem data sz c = Some r
            \<and> (r = null \<or> data \<le> r \<and> r < data + sz)
            \<and> (r = null \<longleftrightarrow> absent (is_char mem c) data (data + sz))"
    using stringFindCharacter_leftmost [OF rd] nn by (rule leftmost_in_bounds)
  have c2: "\<exists>r. stringFindLastCharacter mem data sz c = Some r
            \<and> (r = null \<or> data \<le> r \<and> r < data + sz)
            \<and> (r = null \<longleftrightarrow> absent (is_char mem c) data (data + sz))"
    using stringFindLastCharacter_rightmost [OF rd] nn by (rule rightmost_in_bounds)
  have c3: "\<exists>r. stringFindAny mem data sz q m = Some r
            \<and> (r = null \<or> data \<le> r \<and> r < data + sz)
            \<and> (r = null \<longleftrightarrow> absent (in_set mem q m) data (data + sz))"
    using stringFindAny_leftmost [OF rd rq] nn by (rule leftmost_in_bounds)
  have c4: "\<exists>r. stringFindLastAny mem data sz q m = Some r
            \<and> (r = null \<or> data \<le> r \<and> r < data + sz)
            \<and> (r = null \<longleftrightarrow> absent (in_set mem q m) data (data + sz))"
    using stringFindLastAny_rightmost [OF rd rq] nn by (rule rightmost_in_bounds)
  have c5: "\<exists>r. stringFindNotAny mem data sz q m = Some r
            \<and> (r = null \<or> data \<le> r \<and> r < data + sz)
            \<and> (r = null \<longleftrightarrow> absent (\<lambda>a. \<not> in_set mem q m a) data (data + sz))"
    using stringFindNotAny_leftmost [OF rd rq] nn by (rule leftmost_in_bounds)
  have c6: "\<exists>r. stringFindLastNotAny mem data sz q m = Some r
            \<and> (r = null \<or> data \<le> r \<and> r < data + sz)
            \<and> (r = null \<longleftrightarrow> absent (\<lambda>a. \<not> in_set mem q m a) data (data + sz))"
    using stringFindLastNotAny_rightmost [OF rd rq] nn by (rule rightmost_in_bounds)
  have c7: "(\<exists>r. stringFindString mem data sz q m = Some r
               \<and> (r = null \<or> data \<le> r \<and> r + m \<le> data + sz)
               \<and> (m \<le> sz \<longrightarrow>
                    (r = null \<longleftrightarrow> absent (matches_at mem q m) data (data + sz - m + 1))))
          \<and> (\<exists>r. stringFindLastString mem data sz q m = Some r
               \<and> (r = null \<or> data \<le> r \<and> r + m \<le> data + sz)
               \<and> (m \<le> sz \<longrightarrow>
                    (r = null \<longleftrightarrow> absent (matches_at mem q m) data (data + sz - m + 1))))"
    if pos: "0 < m"
  proof (cases "m \<le> sz")
    case True
    have nn': "data < data + sz - m + 1 \<Longrightarrow> data \<noteq> null"
      using readable_nonnull [OF rd] pos True by simp
    have "\<exists>r. stringFindString mem data sz q m = Some r
        \<and> (r = null \<or> data \<le> r \<and> r < data + sz - m + 1)
        \<and> (r = null \<longleftrightarrow> absent (matches_at mem q m) data (data + sz - m + 1))"
      using stringFindString_leftmost [OF pos True rd rq] nn' by (rule leftmost_in_bounds)
    then have a: "\<exists>r. stringFindString mem data sz q m = Some r
               \<and> (r = null \<or> data \<le> r \<and> r + m \<le> data + sz)
               \<and> (m \<le> sz \<longrightarrow>
                    (r = null \<longleftrightarrow> absent (matches_at mem q m) data (data + sz - m + 1)))"
      using True by (rule substring_in_bounds)
    have "\<exists>r. stringFindLastString mem data sz q m = Some r
        \<and> (r = null \<or> data \<le> r \<and> r < data + sz - m + 1)
        \<and> (r = null \<longleftrightarrow> absent (matches_at mem q m) data (data + sz - m + 1))"
      using stringFindLastString_rightmost [OF pos True rd rq] nn' by (rule rightmost_in_bounds)
    then have b: "\<exists>r. stringFindLastString mem data sz q m = Some r
               \<and> (r = null \<or> data \<le> r \<and> r + m \<le> data + sz)
               \<and> (m \<le> sz \<longrightarrow>
                    (r = null \<longleftrightarrow> absent (matches_at mem q m) data (data + sz - m + 1)))"
      using True by (rule substring_in_bounds)
    show ?thesis using a b by (rule conjI)
  next
    case False
    then have "sz < m" by simp
    then show ?thesis using False by (simp add: needle_too_long)
  qed
  show ?thesis using c1 c2 c3 c4 c5 c6 c7 by (intro conjI impI) blast+
qed

theorem results_in_bounds_witness:
  "readable banana 19 6 \<and> readable banana 40 2
   \<and> stringFindCharacter Cpu_Sse2_Bmi1 banana 19 6 110 = Some 21
   \<and> stringFindLastCharacter banana 19 6 110 = Some 23
   \<and> stringFindAny banana 19 6 40 2 = Some 21
   \<and> stringFindLastAny banana 19 6 40 2 = Some 23
   \<and> stringFindNotAny banana 19 6 40 2 = Some 19
   \<and> stringFindLastNotAny banana 19 6 40 2 = Some 24
   \<and> stringFindString banana 19 6 40 2 = Some null
   \<and> stringFindLastString banana 19 6 40 2 = Some null
   \<and> absent (matches_at banana 40 2) 19 (19 + 6 - 2 + 1)"
proof -
  have len: "length (bytes_of ''banana'') = 6" "length (bytes_of ''nz'') = 2"
    by (simp_all add: bytes_of_def)
  have h1: "readable banana 19 6" using holds_readable [OF banana_holds(1)] by (simp only: len)
  have h2: "readable banana 40 2" using holds_readable [OF banana_holds(2)] by (simp only: len)
  have v: "stringFindCharacter Cpu_Sse2_Bmi1 banana 19 6 110 = Some 21"
    "stringFindLastCharacter banana 19 6 110 = Some 23"
    "stringFindAny banana 19 6 40 2 = Some 21"
    "stringFindLastAny banana 19 6 40 2 = Some 23"
    "stringFindNotAny banana 19 6 40 2 = Some 19"
    "stringFindLastNotAny banana 19 6 40 2 = Some 24"
    "stringFindString banana 19 6 40 2 = Some null"
    "stringFindLastString banana 19 6 40 2 = Some null"
    unfolding banana_def by code_simp+
  show ?thesis
    using results_in_bounds [OF h1 h2, of Cpu_Sse2_Bmi1 110] h1 h2 v by simp
qed

end
